theory Spec2Isabelle
  imports Main
begin

text \<open>
  A model of the evaluation session manager of the chess tutor: the \<^verbatim>\<open>ChessEngine\<close> class
  that correlates \<^verbatim>\<open>getEvaluation\<close> calls with the output of one Stockfish web worker (in
  its two versions, with and without search identifiers), and the worker script. The main
  thread and the worker each run one handler at a time, so every method call, message
  handler and timer callback is a function from state to state, and an execution is a list
  of events. The theorems at the end settle the claims about the request correlator.
\<close>

section \<open>Strings and the regular expressions of the protocol translator\<close>

text \<open>
  The engine parses UCI text lines with \<^verbatim>\<open>startsWith\<close>, \<^verbatim>\<open>includes\<close> and three
  regular expressions. A JavaScript string is modelled as a \<^typ>\<open>string\<close>; every pattern
  of the source is ASCII, so matching is the same on bytes and on UTF-16 code units.
\<close>

definition startsWith :: "string \<Rightarrow> string \<Rightarrow> bool" where
  "startsWith s p = (take (length p) s = p)"

fun str_includes :: "string \<Rightarrow> string \<Rightarrow> bool" where
  "str_includes [] p = (p = [])"
| "str_includes (c # cs) p = (startsWith (c # cs) p \<or> str_includes cs p)"

definition isDigit :: "char \<Rightarrow> bool" where
  "isDigit c = (c \<in> set ''0123456789'')"

definition isFile :: "char \<Rightarrow> bool" where
  "isFile c = (c \<in> set ''abcdefgh'')"

definition isRank :: "char \<Rightarrow> bool" where
  "isRank c = (c \<in> set ''12345678'')"

definition isPromotion :: "char \<Rightarrow> bool" where
  "isPromotion c = (c \<in> set ''qrbn'')"

text \<open>The group \<^verbatim>\<open>([a-h][1-8][a-h][1-8][qrbn]?)\<close> at the start of a string; the optional
  promotion letter is greedy.\<close>

fun moveGroup :: "string \<Rightarrow> string option" where
  "moveGroup (a # b # c # d # rest) =
     (if isFile a \<and> isRank b \<and> isFile c \<and> isRank d then
        (case rest of
           [] \<Rightarrow> Some [a, b, c, d]
         | p # _ \<Rightarrow> if isPromotion p then Some [a, b, c, d, p] else Some [a, b, c, d])
      else None)"
| "moveGroup _ = None"

text \<open>\<^verbatim>\<open>s.match(/<lit>([a-h][1-8][a-h][1-8][qrbn]?)/)\<close> for a non-empty literal: the
  leftmost position where the literal is followed by a move; the result is group 1.\<close>

fun moveAfter :: "string \<Rightarrow> string \<Rightarrow> string option" where
  "moveAfter lit [] = None"
| "moveAfter lit (c # cs) =
     (if startsWith (c # cs) lit then
        (case moveGroup (drop (length lit) (c # cs)) of
           Some m \<Rightarrow> Some m
         | None \<Rightarrow> moveAfter lit cs)
      else moveAfter lit cs)"

definition pvMatch :: "string \<Rightarrow> string option" where
  "pvMatch message = moveAfter ''pv '' message"

definition bestMoveMatch :: "string \<Rightarrow> string option" where
  "bestMoveMatch message = moveAfter ''bestmove '' message"

text \<open>The group \<^verbatim>\<open>(-?\d+)\<close> at the start of a string: an optional minus sign and the
  longest non-empty run of digits.\<close>

definition intGroup :: "string \<Rightarrow> string option" where
  "intGroup s =
     (case s of
        [] \<Rightarrow> None
      | c # r \<Rightarrow>
          if c = CHR ''-'' then
            (if takeWhile isDigit r = [] then None else Some (c # takeWhile isDigit r))
          else
            (if takeWhile isDigit s = [] then None else Some (takeWhile isDigit s)))"

text \<open>\<^verbatim>\<open>/score (cp|mate) (-?\d+)/\<close> anchored at the start of a string: groups 1 and 2.\<close>

definition scoreAt :: "string \<Rightarrow> (string \<times> string) option" where
  "scoreAt s =
     (if startsWith s ''score cp '' then
        (case intGroup (drop 9 s) of Some n \<Rightarrow> Some (''cp'', n) | None \<Rightarrow> None)
      else if startsWith s ''score mate '' then
        (case intGroup (drop 11 s) of Some n \<Rightarrow> Some (''mate'', n) | None \<Rightarrow> None)
      else None)"

text \<open>\<^verbatim>\<open>message.match(/score (cp|mate) (-?\d+)/)\<close>: the leftmost match.\<close>

fun scoreMatch :: "string \<Rightarrow> (string \<times> string) option" where
  "scoreMatch [] = None"
| "scoreMatch (c # cs) =
     (case scoreAt (c # cs) of
        Some g \<Rightarrow> Some g
      | None \<Rightarrow> scoreMatch cs)"

text \<open>\<^verbatim>\<open>parseInt(s, 10)\<close> on a string matched by \<^verbatim>\<open>-?\d+\<close>. A JavaScript number is
  exact up to \<open>2^53\<close>; beyond that \<^verbatim>\<open>parseInt\<close> rounds to a double, which keeps the sign.
  The model keeps the integer as it is written, so it is the engine's score for magnitudes
  up to \<open>2^53\<close>, and has its sign for all.\<close>

definition digitValue :: "char \<Rightarrow> nat" where
  "digitValue c = of_char c - of_char (CHR ''0'')"

definition digitsValue :: "string \<Rightarrow> nat" where
  "digitsValue ds = foldl (\<lambda>n c. 10 * n + digitValue c) 0 (takeWhile isDigit ds)"

definition parseInt :: "string \<Rightarrow> int" where
  "parseInt s =
     (case s of
        [] \<Rightarrow> 0
      | c # r \<Rightarrow> if c = CHR ''-'' then - int (digitsValue r) else int (digitsValue s))"

section \<open>Data model\<close>

record EvaluationResult =
  score :: int
  bestMove :: "string option"

text \<open>How a promise returned by \<^verbatim>\<open>getEvaluation\<close> ends: resolved with a result, or
  rejected with the message of the \<^verbatim>\<open>Error\<close>.\<close>

datatype outcome = Resolved EvaluationResult | Rejected string

text \<open>Messages posted to the worker (\<^verbatim>\<open>{type, position, depth}\<close>) and received from
  it (\<^verbatim>\<open>{type, data, searchId}\<close>; \<^verbatim>\<open>searchId\<close> may be undefined).\<close>

datatype to_worker = Init | Evaluate string nat | Stop

datatype from_worker = Ready | Message string "nat option" | WorkerError string | Other

text \<open>A JavaScript \<^verbatim>\<open>Map\<close> iterates in insertion order and holds a key once: an
  association list with \<^verbatim>\<open>get\<close> as \<^const>\<open>map_of\<close>, and \<^verbatim>\<open>set\<close> and \<^verbatim>\<open>delete\<close> as
  follows (a new key goes last, an old key keeps its place).\<close>

fun mapSet :: "'k \<Rightarrow> 'v \<Rightarrow> ('k \<times> 'v) list \<Rightarrow> ('k \<times> 'v) list" where
  "mapSet k v [] = [(k, v)]"
| "mapSet k v ((k', v') # m) = (if k' = k then (k, v) # m else (k', v') # mapSet k v m)"

definition mapDelete :: "'k \<Rightarrow> ('k \<times> 'v) list \<Rightarrow> ('k \<times> 'v) list" where
  "mapDelete k m = filter (\<lambda>kv. fst kv \<noteq> k) m"

text \<open>An entry of \<^verbatim>\<open>pendingEvaluations\<close>. Its \<^verbatim>\<open>resolve\<close> and \<^verbatim>\<open>reject\<close> are the
  closures \<^verbatim>\<open>wrappedResolve\<close> and \<^verbatim>\<open>wrappedReject\<close> of one \<^verbatim>\<open>getEvaluation\<close> call: they
  capture the call's \<^verbatim>\<open>evalId\<close> (the key the entry is stored under), its timer and its
  promise. Promises are numbered in the order \<^verbatim>\<open>getEvaluation\<close> creates them, and the
  timer of a call carries the number of its promise.\<close>

record PendingEvaluation =
  promise :: nat
  evaluation :: "EvaluationResult option"

section \<open>The engine with search identifiers (src/unnamed/part_002)\<close>

text \<open>
  The fields of the class, then the environment the class acts on: the armed
  \<^verbatim>\<open>setTimeout\<close> callbacks (promise, captured \<^verbatim>\<open>evalId\<close>, deadline in ms), the clock, the
  log of \<^verbatim>\<open>resolve\<close>/\<^verbatim>\<open>reject\<close> calls on the callers' promises (a promise keeps the first),
  the number of promises and of \<^verbatim>\<open>Worker\<close> objects created, and the log of
  \<^verbatim>\<open>postMessage\<close> calls (the worker posted to, the promise of the posting call, the
  message). The class also declares a field \<^verbatim>\<open>currentSearchId\<close> that no method reads or
  writes; it is left out.
\<close>

record ChessEngine =
  worker :: "nat option"
  isReady :: bool
  pendingEvaluations :: "(nat \<times> PendingEvaluation) list"
  evaluationId :: nat
  searchIdToEvalId :: "(nat \<times> nat) list"
  timers :: "(nat \<times> nat \<times> nat) list"
  now :: nat
  settled :: "(nat \<times> outcome) list"
  promises :: nat
  workers :: nat
  posted :: "(nat \<times> nat option \<times> to_worker) list"

definition newEngine :: ChessEngine where
  "newEngine = \<lparr> worker = None, isReady = False, pendingEvaluations = [], evaluationId = 0,
     searchIdToEvalId = [], timers = [], now = 0, settled = [], promises = 0, workers = 0,
     posted = [] \<rparr>"

text \<open>The state of a promise: the first \<^verbatim>\<open>resolve\<close> or \<^verbatim>\<open>reject\<close> call on it wins.\<close>

definition outcome_of :: "ChessEngine \<Rightarrow> nat \<Rightarrow> outcome option" where
  "outcome_of st p = map_of (settled st) p"

text \<open>The loop \<^verbatim>\<open>for (const [sid, eid] of searchIdToEvalId.entries()) if (eid === evalId)
  { searchIdToEvalId.delete(sid); break; }\<close>.\<close>

fun deleteFirstMapping :: "nat \<Rightarrow> (nat \<times> nat) list \<Rightarrow> (nat \<times> nat) list" where
  "deleteFirstMapping evalId [] = []"
| "deleteFirstMapping evalId ((sid, eid) # m) =
     (if eid = evalId then m else (sid, eid) # deleteFirstMapping evalId m)"

text \<open>\<^verbatim>\<open>wrappedResolve\<close> and \<^verbatim>\<open>wrappedReject\<close> of the call with \<^verbatim>\<open>evalId\<close> and promise
  \<open>p\<close>: clear the timer, delete the pending entry, delete the first mapping to
  \<^verbatim>\<open>evalId\<close>, settle the promise.\<close>

definition wrappedSettle :: "nat \<Rightarrow> nat \<Rightarrow> outcome \<Rightarrow> ChessEngine \<Rightarrow> ChessEngine" where
  "wrappedSettle evalId p oc st =
     st\<lparr> timers := filter (\<lambda>t. fst t \<noteq> p) (timers st),
         pendingEvaluations := mapDelete evalId (pendingEvaluations st),
         searchIdToEvalId := deleteFirstMapping evalId (searchIdToEvalId st),
         settled := settled st @ [(p, oc)] \<rparr>"

definition wrappedResolve :: "nat \<Rightarrow> nat \<Rightarrow> EvaluationResult \<Rightarrow> ChessEngine \<Rightarrow> ChessEngine" where
  "wrappedResolve evalId p result st = wrappedSettle evalId p (Resolved result) st"

definition wrappedReject :: "nat \<Rightarrow> nat \<Rightarrow> string \<Rightarrow> ChessEngine \<Rightarrow> ChessEngine" where
  "wrappedReject evalId p msg st = wrappedSettle evalId p (Rejected msg) st"

text \<open>The inner loop over \<^verbatim>\<open>searchIdToEvalId.values()\<close> that sets \<^verbatim>\<open>isMapped\<close>.\<close>

definition isMapped :: "ChessEngine \<Rightarrow> nat \<Rightarrow> bool" where
  "isMapped st eid = (eid \<in> set (map snd (searchIdToEvalId st)))"

text \<open>The block both branches of \<^verbatim>\<open>handleStockfishMessage\<close> start with: the \<^verbatim>\<open>evalId\<close>
  mapped to \<^verbatim>\<open>searchId\<close>, or else the first pending entry no search is mapped to, which
  is then mapped to \<^verbatim>\<open>searchId\<close>.\<close>

definition firstUnmapped :: "ChessEngine \<Rightarrow> nat option" where
  "firstUnmapped st =
     map_option fst (find (\<lambda>entry. \<not> isMapped st (fst entry)) (pendingEvaluations st))"

definition findEvalId :: "nat \<Rightarrow> ChessEngine \<Rightarrow> nat option \<times> ChessEngine" where
  "findEvalId searchId st =
     (case map_of (searchIdToEvalId st) searchId of
        Some evalId \<Rightarrow> (Some evalId, st)
      | None \<Rightarrow>
          (case firstUnmapped st of
             None \<Rightarrow> (None, st)
           | Some eid \<Rightarrow>
               (Some eid, st\<lparr> searchIdToEvalId := searchIdToEvalId st @ [(searchId, eid)] \<rparr>)))"

text \<open>The score of a matched score line: centipawns as written, a mate as a sentinel.\<close>

definition scoreOf :: "string \<times> string \<Rightarrow> int" where
  "scoreOf g =
     (if fst g = ''cp'' then parseInt (snd g)
      else if fst g = ''mate'' then (if parseInt (snd g) > 0 then 10000 else - 10000)
      else 0)"

text \<open>First half of \<^verbatim>\<open>handleStockfishMessage\<close>: an \<^verbatim>\<open>info\<close> line with a score.\<close>

definition handleInfo :: "string \<Rightarrow> nat option \<Rightarrow> ChessEngine \<Rightarrow> ChessEngine" where
  "handleInfo message searchId st =
     (if startsWith message ''info'' \<and> str_includes message ''score'' then
        (case scoreMatch message of
           None \<Rightarrow> st
         | Some g \<Rightarrow>
             (case searchId of
                None \<Rightarrow> st
              | Some sid \<Rightarrow>
                  (case findEvalId sid st of
                     (None, st1) \<Rightarrow> st1
                   | (Some evalId, st1) \<Rightarrow>
                       (case map_of (pendingEvaluations st1) evalId of
                          None \<Rightarrow> st1
                        | Some pending \<Rightarrow>
                            st1\<lparr> pendingEvaluations :=
                              mapSet evalId
                                (pending\<lparr> evaluation :=
                                   Some \<lparr> score = scoreOf g, bestMove = pvMatch message \<rparr> \<rparr>)
                                (pendingEvaluations st1) \<rparr>))))
      else st)"

text \<open>The result a \<^verbatim>\<open>bestmove\<close> line leaves in \<^verbatim>\<open>pending.evaluation\<close>.\<close>

definition finalEvaluation :: "string \<Rightarrow> EvaluationResult option \<Rightarrow> EvaluationResult option" where
  "finalEvaluation message ev =
     (case bestMoveMatch message of
        None \<Rightarrow> ev
      | Some mv \<Rightarrow>
          (case ev of
             Some e \<Rightarrow> Some (e\<lparr> bestMove := Some mv \<rparr>)
           | None \<Rightarrow> Some \<lparr> score = 0, bestMove = Some mv \<rparr>))"

text \<open>Second half: a \<^verbatim>\<open>bestmove\<close> line. The entry is deleted as soon as it is settled,
  so the last write to \<^verbatim>\<open>pending.evaluation\<close> is only read by the \<^verbatim>\<open>resolve\<close> call.\<close>

definition handleBestmove :: "string \<Rightarrow> nat option \<Rightarrow> ChessEngine \<Rightarrow> ChessEngine" where
  "handleBestmove message searchId st =
     (if startsWith message ''bestmove'' then
        (case searchId of
           None \<Rightarrow> st
         | Some sid \<Rightarrow>
             (case findEvalId sid st of
                (None, st1) \<Rightarrow> st1
              | (Some evalId, st1) \<Rightarrow>
                  (case map_of (pendingEvaluations st1) evalId of
                     None \<Rightarrow> st1
                   | Some pending \<Rightarrow>
                       (let st2 =
                          (case finalEvaluation message (evaluation pending) of
                             Some e \<Rightarrow> wrappedResolve evalId (promise pending) e st1
                           | None \<Rightarrow>
                               wrappedReject evalId (promise pending) ''Evaluation incomplete'' st1)
                        in st2\<lparr> pendingEvaluations := mapDelete evalId (pendingEvaluations st2),
                               searchIdToEvalId := mapDelete sid (searchIdToEvalId st2) \<rparr>))))
      else st)"

definition handleStockfishMessage :: "string \<Rightarrow> nat option \<Rightarrow> ChessEngine \<Rightarrow> ChessEngine" where
  "handleStockfishMessage message searchId st =
     handleBestmove message searchId (handleInfo message searchId st)"

text \<open>One round of \<^verbatim>\<open>previousUnmappedEvaluations.forEach\<close> in \<^verbatim>\<open>getEvaluation\<close>.\<close>

definition rejectPrevious :: "nat \<Rightarrow> ChessEngine \<Rightarrow> ChessEngine" where
  "rejectPrevious eid st =
     (case map_of (pendingEvaluations st) eid of
        None \<Rightarrow> st
      | Some pending \<Rightarrow>
          (let st1 = wrappedReject eid (promise pending) ''Evaluation cancelled by new request'' st
           in st1\<lparr> pendingEvaluations := mapDelete eid (pendingEvaluations st1) \<rparr>))"

definition previousUnmappedEvaluations :: "ChessEngine \<Rightarrow> nat list" where
  "previousUnmappedEvaluations st =
     map fst (filter (\<lambda>entry. \<not> isMapped st (fst entry)) (pendingEvaluations st))"

text \<open>\<^verbatim>\<open>getEvaluation(fen, depth = 15)\<close>. The call is \<^verbatim>\<open>async\<close>: the \<^verbatim>\<open>throw\<close> of the first
  lines rejects the promise it returns.\<close>

definition getEvaluation :: "string \<Rightarrow> nat option \<Rightarrow> ChessEngine \<Rightarrow> ChessEngine" where
  "getEvaluation fen depth st =
     (let p = promises st in
      case worker st of
        None \<Rightarrow>
          st\<lparr> settled := settled st @
                 [(p, Rejected ''Chess engine not initialized. Call initialize() first.'')],
              promises := p + 1 \<rparr>
      | Some w \<Rightarrow>
          if \<not> isReady st then
            st\<lparr> settled := settled st @
                   [(p, Rejected ''Chess engine not initialized. Call initialize() first.'')],
                promises := p + 1 \<rparr>
          else
            (let evalId = evaluationId st + 1;
                 st1 = st\<lparr> evaluationId := evalId \<rparr>;
                 st2 = fold rejectPrevious (previousUnmappedEvaluations st1) st1
             in st2\<lparr> pendingEvaluations :=
                       mapSet evalId \<lparr> promise = p, evaluation = None \<rparr> (pendingEvaluations st2),
                     timers := timers st2 @ [(p, evalId, now st2 + 30000)],
                     posted := posted st2 @
                       [(w, Some p, Evaluate (''fen '' @ fen) (case depth of None \<Rightarrow> 15 | Some d \<Rightarrow> d))],
                     promises := p + 1 \<rparr>))"

text \<open>The callback of \<^verbatim>\<open>setTimeout(..., 30000)\<close> for promise \<open>p\<close>; it runs only while the
  timer is armed, and no earlier than its deadline.\<close>

definition timeoutFires :: "nat \<Rightarrow> ChessEngine \<Rightarrow> ChessEngine" where
  "timeoutFires p st =
     (case map_of (timers st) p of
        None \<Rightarrow> st
      | Some (evalId, deadline) \<Rightarrow>
          if deadline \<le> now st then wrappedReject evalId p ''Evaluation timeout'' st else st)"

text \<open>\<^verbatim>\<open>pendingEvaluations.forEach(({ reject }) => reject(new Error(msg)))\<close>: every entry is
  visited once, and each \<^verbatim>\<open>reject\<close> deletes its own entry.\<close>

definition rejectAll :: "string \<Rightarrow> ChessEngine \<Rightarrow> ChessEngine" where
  "rejectAll msg st =
     fold (\<lambda>entry. wrappedReject (fst entry) (promise (snd entry)) msg) (pendingEvaluations st) st"

definition stopEvaluation :: "ChessEngine \<Rightarrow> ChessEngine" where
  "stopEvaluation st =
     (case worker st of
        None \<Rightarrow> st
      | Some w \<Rightarrow>
          if \<not> isReady st then st
          else
            (let st1 = st\<lparr> posted := posted st @ [(w, None, Stop)] \<rparr>;
                 st2 = rejectAll ''Evaluation stopped'' st1
             in st2\<lparr> pendingEvaluations := [], searchIdToEvalId := [] \<rparr>))"

definition destroy :: "ChessEngine \<Rightarrow> ChessEngine" where
  "destroy st =
     (case worker st of
        None \<Rightarrow> st
      | Some w \<Rightarrow>
          (let st1 = stopEvaluation st;
               st2 = rejectAll ''Worker terminated'' st1
           in st2\<lparr> pendingEvaluations := [], searchIdToEvalId := [], worker := None,
                  isReady := False, evaluationId := 0 \<rparr>))"

text \<open>\<^verbatim>\<open>initialize()\<close> up to its \<^verbatim>\<open>postMessage\<close>: a new \<^verbatim>\<open>Worker\<close> (its construction is
  taken to succeed) and the \<^verbatim>\<open>init\<close> message. The promise it returns is not modelled.\<close>

definition initialize :: "ChessEngine \<Rightarrow> ChessEngine" where
  "initialize st =
     st\<lparr> worker := Some (workers st), workers := workers st + 1,
         posted := posted st @ [(workers st, None, Init)] \<rparr>"

text \<open>\<^verbatim>\<open>restart()\<close>: \<^verbatim>\<open>destroy()\<close>, then the synchronous part of \<^verbatim>\<open>initialize()\<close>.\<close>

definition restart :: "ChessEngine \<Rightarrow> ChessEngine" where
  "restart st = initialize (destroy st)"

text \<open>\<^verbatim>\<open>worker.onmessage\<close>.\<close>

fun onmessage :: "from_worker \<Rightarrow> ChessEngine \<Rightarrow> ChessEngine" where
  "onmessage Ready st = st\<lparr> isReady := True \<rparr>"
| "onmessage (Message data searchId) st = handleStockfishMessage data searchId st"
| "onmessage (WorkerError data) st = st"
| "onmessage Other st = st"

text \<open>What can happen to the engine: a call of its API, a message from a worker, a
  timer callback, time passing.\<close>

datatype event =
    Initialize
  | GetEvaluation string "nat option"
  | StopEvaluation
  | Destroy
  | Restart
  | OnMessage from_worker
  | TimeoutFires nat
  | Tick nat

fun step :: "event \<Rightarrow> ChessEngine \<Rightarrow> ChessEngine" where
  "step Initialize st = initialize st"
| "step (GetEvaluation fen depth) st = getEvaluation fen depth st"
| "step StopEvaluation st = stopEvaluation st"
| "step Destroy st = destroy st"
| "step Restart st = restart st"
| "step (OnMessage m) st = onmessage m st"
| "step (TimeoutFires p) st = timeoutFires p st"
| "step (Tick d) st = st\<lparr> now := now st + d \<rparr>"

definition run :: "event list \<Rightarrow> ChessEngine \<Rightarrow> ChessEngine" where
  "run evs st = fold step evs st"

section \<open>The worker script (src/unnamed/part_005)\<close>

text \<open>
  The script's variables, and the two outboxes it writes to: the commands given to
  Stockfish (\<^verbatim>\<open>stockfish.postMessage\<close>) and the messages for the main thread
  (\<^verbatim>\<open>self.postMessage\<close>), oldest first. The script's \<^verbatim>\<open>isReady\<close> is \<open>isReady_w\<close> here.
\<close>

record StockfishWorker =
  stockfish :: bool
  isReady_w :: bool
  currentSearchId :: nat
  toStockfish :: "string list"
  toMain :: "from_worker list"

text \<open>The top level of the script, run once per \<^verbatim>\<open>new Worker\<close>; \<open>defined\<close> says whether
  the imported script defines \<^verbatim>\<open>Stockfish\<close>.\<close>

definition loadWorker :: "bool \<Rightarrow> StockfishWorker" where
  "loadWorker defined =
     \<lparr> stockfish = defined, isReady_w = False, currentSearchId = 0,
       toStockfish = (if defined then [''uci''] else []), toMain = [] \<rparr>"

text \<open>\<^verbatim>\<open>stockfish.onmessage\<close> for a string message: every line goes to the main thread
  with the value \<^verbatim>\<open>currentSearchId\<close> has when the line arrives.\<close>

definition stockfishOnmessage :: "string \<Rightarrow> StockfishWorker \<Rightarrow> StockfishWorker" where
  "stockfishOnmessage message w =
     (let w1 = w\<lparr> toMain := toMain w @ [Message message (Some (currentSearchId w))] \<rparr> in
      if message = ''uciok'' then
        w1\<lparr> isReady_w := True,
            toMain := toMain w1 @ [Ready],
            toStockfish := toStockfish w1 @
              [''setoption name Skill Level value 20'', ''setoption name MultiPV value 1''] \<rparr>
      else w1)"

text \<open>The decimal digits of a depth, as the template literal writes them; this is what
  JavaScript prints for a depth below \<open>10^21\<close>, where it changes to exponent notation.\<close>

definition digitChar :: "nat \<Rightarrow> char" where
  "digitChar d = ''0123456789'' ! d"

fun showNat :: "nat \<Rightarrow> string" where
  "showNat n = (if n < 10 then [digitChar n] else showNat (n div 10) @ [digitChar (n mod 10)])"

text \<open>\<^verbatim>\<open>self.onmessage\<close>.\<close>

definition workerOnmessage :: "to_worker \<Rightarrow> StockfishWorker \<Rightarrow> StockfishWorker" where
  "workerOnmessage m w =
     (if \<not> stockfish w then w\<lparr> toMain := toMain w @ [WorkerError ''Stockfish not loaded''] \<rparr>
      else
        (case m of
           Init \<Rightarrow> if \<not> isReady_w w then w\<lparr> toStockfish := toStockfish w @ [''uci''] \<rparr> else w
         | Evaluate position depth \<Rightarrow>
             if isReady_w w then
               w\<lparr> currentSearchId := currentSearchId w + 1,
                   toStockfish := toStockfish w @
                     [''stop'',
                      ''position '' @ (if position = [] then ''startpos'' else position),
                      ''go depth '' @ showNat (if depth = 0 then 15 else depth)] \<rparr>
             else w\<lparr> toMain := toMain w @ [WorkerError ''Stockfish not ready''] \<rparr>
         | Stop \<Rightarrow>
             if isReady_w w then
               w\<lparr> toStockfish := toStockfish w @ [''stop''],
                   currentSearchId := currentSearchId w + 1 \<rparr>
             else w))"

section \<open>Engine and workers together\<close>

text \<open>
  The main thread and each worker it has created exchange messages over two FIFO
  channels: the entries of the engine's \<^const>\<open>posted\<close> log addressed to the worker are
  the channel to it, the worker's \<^const>\<open>toMain\<close> is the channel back. A live worker is
  kept with its number (the order of creation) and the count of entries it has taken.
  \<^verbatim>\<open>new Worker\<close> adds a worker in its load state. \<^verbatim>\<open>initialize()\<close> overwrites
  \<^verbatim>\<open>this.worker\<close> and never terminates the worker it held, so that worker lives on, and
  its \<^verbatim>\<open>onmessage\<close> still calls the engine. \<^verbatim>\<open>worker.terminate()\<close>, called by
  \<^verbatim>\<open>destroy()\<close> on \<^verbatim>\<open>this.worker\<close> only, discards the worker together with what it had
  not delivered.
\<close>

record System =
  engine :: ChessEngine
  liveWorkers :: "(nat \<times> StockfishWorker \<times> nat) list"

datatype sys_event =
    Call event
  | WorkerTakes nat
  | StockfishSays nat string
  | MainTakes nat

definition newSystem :: System where
  "newSystem = \<lparr> engine = newEngine, liveWorkers = [] \<rparr>"

text \<open>The worker a call terminates, and the worker it creates.\<close>

definition terminated :: "event \<Rightarrow> ChessEngine \<Rightarrow> nat option" where
  "terminated ev e = (case ev of Destroy \<Rightarrow> worker e | Restart \<Rightarrow> worker e | _ \<Rightarrow> None)"

definition created :: "event \<Rightarrow> ChessEngine \<Rightarrow> nat option" where
  "created ev e =
     (case ev of Initialize \<Rightarrow> Some (workers e) | Restart \<Rightarrow> Some (workers e) | _ \<Rightarrow> None)"

text \<open>The entries of the \<^const>\<open>posted\<close> log that worker \<open>w\<close> has not taken yet.\<close>

definition inbox :: "nat \<Rightarrow> nat \<Rightarrow> ChessEngine \<Rightarrow> to_worker list" where
  "inbox w taken e = drop taken (map (\<lambda>post. snd (snd post)) (filter (\<lambda>post. fst post = w) (posted e)))"

fun sysStep :: "sys_event \<Rightarrow> System \<Rightarrow> System" where
  "sysStep (Call ev) s =
     (let e = engine s;
          kept = (case terminated ev e of
                    None \<Rightarrow> liveWorkers s
                  | Some w \<Rightarrow> filter (\<lambda>x. fst x \<noteq> w) (liveWorkers s))
      in s\<lparr> engine := step ev e,
            liveWorkers := (case created ev e of
                              None \<Rightarrow> kept
                            | Some w \<Rightarrow> kept @ [(w, loadWorker True, 0)]) \<rparr>)"
| "sysStep (WorkerTakes w) s =
     (case map_of (liveWorkers s) w of
        None \<Rightarrow> s
      | Some (ws, taken) \<Rightarrow>
          (case inbox w taken (engine s) of
             [] \<Rightarrow> s
           | m # _ \<Rightarrow>
               s\<lparr> liveWorkers := mapSet w (workerOnmessage m ws, taken + 1) (liveWorkers s) \<rparr>))"
| "sysStep (StockfishSays w line) s =
     (case map_of (liveWorkers s) w of
        None \<Rightarrow> s
      | Some (ws, taken) \<Rightarrow>
          s\<lparr> liveWorkers := mapSet w (stockfishOnmessage line ws, taken) (liveWorkers s) \<rparr>)"
| "sysStep (MainTakes w) s =
     (case map_of (liveWorkers s) w of
        None \<Rightarrow> s
      | Some (ws, taken) \<Rightarrow>
          (case toMain ws of
             [] \<Rightarrow> s
           | m # rest \<Rightarrow>
               s\<lparr> engine := onmessage m (engine s),
                   liveWorkers := mapSet w (ws\<lparr> toMain := rest \<rparr>, taken) (liveWorkers s) \<rparr>))"

definition sysRun :: "sys_event list \<Rightarrow> System \<Rightarrow> System" where
  "sysRun evs s = fold sysStep evs s"

text \<open>The script's state of live worker \<open>w\<close>.\<close>

definition workerState :: "System \<Rightarrow> nat \<Rightarrow> StockfishWorker option" where
  "workerState s w = map_option fst (map_of (liveWorkers s) w)"

section \<open>The engine without search identifiers (src/src/lib/chessEngine.ts)\<close>

text \<open>
  The same class, without \<^verbatim>\<open>searchIdToEvalId\<close>: one \<^verbatim>\<open>currentEvaluation\<close> for all requests.
  An entry of its \<^verbatim>\<open>pendingEvaluations\<close> holds only the two closures, that is the promise.
  Fields and methods carry the suffix \<open>_lib\<close>.
\<close>

record ChessEngineLib =
  worker_lib :: "nat option"
  isReady_lib :: bool
  pendingEvaluations_lib :: "(nat \<times> nat) list"
  evaluationId_lib :: nat
  currentEvaluation :: "EvaluationResult option"
  timers_lib :: "(nat \<times> nat \<times> nat) list"
  now_lib :: nat
  settled_lib :: "(nat \<times> outcome) list"
  promises_lib :: nat
  workers_lib :: nat
  posted_lib :: "(nat \<times> nat option \<times> to_worker) list"

definition newEngine_lib :: ChessEngineLib where
  "newEngine_lib = \<lparr> worker_lib = None, isReady_lib = False, pendingEvaluations_lib = [],
     evaluationId_lib = 0, currentEvaluation = None, timers_lib = [], now_lib = 0,
     settled_lib = [], promises_lib = 0, workers_lib = 0, posted_lib = [] \<rparr>"

definition outcome_of_lib :: "ChessEngineLib \<Rightarrow> nat \<Rightarrow> outcome option" where
  "outcome_of_lib st p = map_of (settled_lib st) p"

definition wrappedSettle_lib :: "nat \<Rightarrow> nat \<Rightarrow> outcome \<Rightarrow> ChessEngineLib \<Rightarrow> ChessEngineLib" where
  "wrappedSettle_lib evalId p oc st =
     st\<lparr> timers_lib := filter (\<lambda>t. fst t \<noteq> p) (timers_lib st),
         pendingEvaluations_lib := mapDelete evalId (pendingEvaluations_lib st),
         settled_lib := settled_lib st @ [(p, oc)] \<rparr>"

definition handleInfo_lib :: "string \<Rightarrow> ChessEngineLib \<Rightarrow> ChessEngineLib" where
  "handleInfo_lib message st =
     (if startsWith message ''info'' \<and> str_includes message ''score'' then
        (case scoreMatch message of
           None \<Rightarrow> st
         | Some g \<Rightarrow>
             st\<lparr> currentEvaluation := Some \<lparr> score = scoreOf g, bestMove = pvMatch message \<rparr> \<rparr>)
      else st)"

definition handleBestmove_lib :: "string \<Rightarrow> ChessEngineLib \<Rightarrow> ChessEngineLib" where
  "handleBestmove_lib message st =
     (if startsWith message ''bestmove'' then
        (let st1 =
           (case bestMoveMatch message of
              None \<Rightarrow> st
            | Some mv \<Rightarrow>
                (case currentEvaluation st of
                   None \<Rightarrow> st
                 | Some ev \<Rightarrow> st\<lparr> currentEvaluation := Some (ev\<lparr> bestMove := Some mv \<rparr>) \<rparr>))
         in case pendingEvaluations_lib st1 of
              [] \<Rightarrow> st1
            | entry # _ \<Rightarrow>
                (case currentEvaluation st1 of
                   None \<Rightarrow> st1
                 | Some ev \<Rightarrow>
                     (wrappedSettle_lib (fst entry) (snd entry) (Resolved ev) st1)
                       \<lparr> pendingEvaluations_lib := [], currentEvaluation := None \<rparr>))
      else st)"

definition handleStockfishMessage_lib :: "string \<Rightarrow> ChessEngineLib \<Rightarrow> ChessEngineLib" where
  "handleStockfishMessage_lib message st = handleBestmove_lib message (handleInfo_lib message st)"

definition getEvaluation_lib :: "string \<Rightarrow> nat option \<Rightarrow> ChessEngineLib \<Rightarrow> ChessEngineLib" where
  "getEvaluation_lib fen depth st =
     (let p = promises_lib st in
      case worker_lib st of
        None \<Rightarrow>
          st\<lparr> settled_lib := settled_lib st @
                 [(p, Rejected ''Chess engine not initialized. Call initialize() first.'')],
              promises_lib := p + 1 \<rparr>
      | Some w \<Rightarrow>
          if \<not> isReady_lib st then
            st\<lparr> settled_lib := settled_lib st @
                   [(p, Rejected ''Chess engine not initialized. Call initialize() first.'')],
                promises_lib := p + 1 \<rparr>
          else
            (let evalId = evaluationId_lib st + 1 in
             st\<lparr> evaluationId_lib := evalId,
                 pendingEvaluations_lib := mapSet evalId p (pendingEvaluations_lib st),
                 timers_lib := timers_lib st @ [(p, evalId, now_lib st + 30000)],
                 posted_lib := posted_lib st @
                   [(w, Some p, Evaluate (''fen '' @ fen) (case depth of None \<Rightarrow> 15 | Some d \<Rightarrow> d))],
                 promises_lib := p + 1 \<rparr>))"

definition timeoutFires_lib :: "nat \<Rightarrow> ChessEngineLib \<Rightarrow> ChessEngineLib" where
  "timeoutFires_lib p st =
     (case map_of (timers_lib st) p of
        None \<Rightarrow> st
      | Some (evalId, deadline) \<Rightarrow>
          if deadline \<le> now_lib st then
            wrappedSettle_lib evalId p (Rejected ''Evaluation timeout'')
              (st\<lparr> pendingEvaluations_lib := mapDelete evalId (pendingEvaluations_lib st) \<rparr>)
          else st)"

definition rejectAll_lib :: "string \<Rightarrow> ChessEngineLib \<Rightarrow> ChessEngineLib" where
  "rejectAll_lib msg st =
     fold (\<lambda>entry. wrappedSettle_lib (fst entry) (snd entry) (Rejected msg))
       (pendingEvaluations_lib st) st"

definition stopEvaluation_lib :: "ChessEngineLib \<Rightarrow> ChessEngineLib" where
  "stopEvaluation_lib st =
     (case worker_lib st of
        None \<Rightarrow> st
      | Some w \<Rightarrow>
          if \<not> isReady_lib st then st
          else
            (let st1 = st\<lparr> posted_lib := posted_lib st @ [(w, None, Stop)] \<rparr>;
                 st2 = rejectAll_lib ''Evaluation stopped'' st1
             in st2\<lparr> pendingEvaluations_lib := [], currentEvaluation := None \<rparr>))"

definition destroy_lib :: "ChessEngineLib \<Rightarrow> ChessEngineLib" where
  "destroy_lib st =
     (case worker_lib st of
        None \<Rightarrow> st
      | Some w \<Rightarrow>
          (let st1 = stopEvaluation_lib st;
               st2 = rejectAll_lib ''Worker terminated'' st1
           in st2\<lparr> pendingEvaluations_lib := [], currentEvaluation := None, worker_lib := None,
                  isReady_lib := False, evaluationId_lib := 0 \<rparr>))"

definition initialize_lib :: "ChessEngineLib \<Rightarrow> ChessEngineLib" where
  "initialize_lib st =
     st\<lparr> worker_lib := Some (workers_lib st), workers_lib := workers_lib st + 1,
         posted_lib := posted_lib st @ [(workers_lib st, None, Init)] \<rparr>"

fun onmessage_lib :: "from_worker \<Rightarrow> ChessEngineLib \<Rightarrow> ChessEngineLib" where
  "onmessage_lib Ready st = st\<lparr> isReady_lib := True \<rparr>"
| "onmessage_lib (Message data searchId) st = handleStockfishMessage_lib data st"
| "onmessage_lib (WorkerError data) st = st"
| "onmessage_lib Other st = st"

fun step_lib :: "event \<Rightarrow> ChessEngineLib \<Rightarrow> ChessEngineLib" where
  "step_lib Initialize st = initialize_lib st"
| "step_lib (GetEvaluation fen depth) st = getEvaluation_lib fen depth st"
| "step_lib StopEvaluation st = stopEvaluation_lib st"
| "step_lib Destroy st = destroy_lib st"
| "step_lib Restart st = initialize_lib (destroy_lib st)"
| "step_lib (OnMessage m) st = onmessage_lib m st"
| "step_lib (TimeoutFires p) st = timeoutFires_lib p st"
| "step_lib (Tick d) st = st\<lparr> now_lib := now_lib st + d \<rparr>"

definition run_lib :: "event list \<Rightarrow> ChessEngineLib \<Rightarrow> ChessEngineLib" where
  "run_lib evs st = fold step_lib evs st"

section \<open>What holds in every reachable state\<close>

text \<open>
  The pairs (\<^verbatim>\<open>evalId\<close>, promise) of the pending entries, and the invariant of the engine
  in terms of them: pending entries have distinct ids and distinct promises, ids no larger
  than \<^verbatim>\<open>evaluationId\<close>, promises that exist and are not settled; searches are mapped to
  pending entries, each to another one; an armed timer belongs to a pending entry and is
  due within 30000 ms; settled promises exist; entries are pending only while the engine
  is ready; a promise is settled or has its timer armed; and a promise has one timer.
\<close>

definition pendingPairs :: "ChessEngine \<Rightarrow> (nat \<times> nat) list" where
  "pendingPairs st = map (\<lambda>entry. (fst entry, promise (snd entry))) (pendingEvaluations st)"

definition coherent ::
  "nat \<Rightarrow> nat \<Rightarrow> nat \<Rightarrow> bool \<Rightarrow> (nat \<times> nat) list \<Rightarrow> (nat \<times> nat) list \<Rightarrow>
   (nat \<times> nat \<times> nat) list \<Rightarrow> nat list \<Rightarrow> bool" where
  "coherent lastId count clock ready ps mapping tms done \<longleftrightarrow>
     distinct (map fst ps) \<and>
     distinct (map snd ps) \<and>
     (\<forall>x \<in> set ps. fst x \<le> lastId \<and> snd x < count \<and> snd x \<notin> set done) \<and>
     set (map snd mapping) \<subseteq> set (map fst ps) \<and>
     distinct (map snd mapping) \<and>
     (\<forall>t \<in> set tms. (fst (snd t), fst t) \<in> set ps \<and> snd (snd t) \<le> clock + 30000) \<and>
     (\<forall>p \<in> set done. p < count) \<and>
     (ps \<noteq> [] \<longrightarrow> ready) \<and>
     (\<forall>p < count. p \<in> set done \<or> p \<in> set (map fst tms)) \<and>
     distinct (map fst tms)"

definition wellFormed :: "ChessEngine \<Rightarrow> bool" where
  "wellFormed st =
     coherent (evaluationId st) (promises st) (now st) (worker st \<noteq> None \<and> isReady st)
       (pendingPairs st) (searchIdToEvalId st) (timers st) (map fst (settled st))"

text \<open>How a later state relates to an earlier one: the log of settlements has only
  grown, a timer that was armed is still armed unless its promise was settled meanwhile,
  and the clock has not gone back.\<close>

definition evolves :: "ChessEngine \<Rightarrow> ChessEngine \<Rightarrow> bool" where
  "evolves st st' \<longleftrightarrow>
     (\<exists>new. settled st' = settled st @ new \<and>
        (\<forall>p x. map_of (timers st) p = Some x \<longrightarrow>
           map_of (timers st') p = Some x \<or> p \<in> fst ` set new)) \<and>
     now st \<le> now st'"

text \<open>A step that settles promises only by rejecting them.\<close>

definition onlyRejects :: "ChessEngine \<Rightarrow> ChessEngine \<Rightarrow> bool" where
  "onlyRejects st st' \<longleftrightarrow>
     (\<exists>new. settled st' = settled st @ new \<and> (\<forall>x \<in> set new. \<exists>msg. snd x = Rejected msg))"

text \<open>What a \<^verbatim>\<open>bestmove\<close> line does to the promise of the entry it completes.\<close>

definition completion :: "string \<Rightarrow> PendingEvaluation \<Rightarrow> outcome" where
  "completion message pending =
     (case finalEvaluation message (evaluation pending) of
        Some r \<Rightarrow> Resolved r
      | None \<Rightarrow> Rejected ''Evaluation incomplete'')"

text \<open>
  The same for the engine of src/lib/chessEngine.ts, whose completion handler clears the
  whole table: \<open>pendingFrom n\<close> says that only promises numbered \<open>n\<close> or later are
  pending, \<open>advances n\<close> relates a state to a later one (settlements are only added, and a
  promise numbered below \<open>n\<close> is only ever rejected; an armed timer stays armed unless its
  promise is settled; the clock does not go back), and \<open>timed_lib\<close> says that every promise
  is settled or has a timer armed, due within 30000 ms.
\<close>

definition pendingFrom :: "nat \<Rightarrow> ChessEngineLib \<Rightarrow> bool" where
  "pendingFrom n st \<longleftrightarrow>
     (\<forall>entry \<in> set (pendingEvaluations_lib st). n \<le> snd entry) \<and> n \<le> promises_lib st"





section \<open>Scripted engine output and sample states\<close>

definition startFen :: string where
  "startFen = ''rnbqkbnr/pppppppp/8/8/8/8/PPPPPPPP/RNBQKBNR w KQkq - 0 1''"

definition infoCp34 :: string where
  "infoCp34 = ''info depth 15 seldepth 21 multipv 1 score cp 34 nodes 184322 nps 921610 time 200 pv e2e4 e7e5 g1f3''"

definition infoMate3 :: string where
  "infoMate3 = ''info depth 12 seldepth 6 multipv 1 score mate 3 nodes 5120 nps 512000 time 10 pv f7f8q e8f8 d1d8''"

definition infoMateMinus2 :: string where
  "infoMateMinus2 = ''info depth 9 seldepth 4 multipv 1 score mate -2 nodes 812 nps 406000 time 2 pv g8h8 f7f8q''"

definition oneRequest :: ChessEngine where
  "oneRequest = run [Initialize, OnMessage Ready, GetEvaluation startFen (Some 15)] newEngine"

definition oneRequest_lib :: ChessEngineLib where
  "oneRequest_lib = run_lib [Initialize, OnMessage Ready, GetEvaluation startFen (Some 15)] newEngine_lib"

definition fenAfterE4 :: string where
  "fenAfterE4 = ''rnbqkbnr/pppppppp/8/8/4P3/8/PPPP1PPP/RNBQKBNR b KQkq e3 0 1''"

definition infoNoScore :: string where
  "infoNoScore = ''info depth 18 currmove g1f3 currmovenumber 2''"

definition infoReply :: string where
  "infoReply = ''info depth 15 seldepth 20 multipv 1 score cp -28 nodes 201845 nps 917477 time 220 pv e7e5 g1f3 b8c6''"

text \<open>The first request has been mapped by a score line, the second is still unmapped.\<close>

definition twoRequests :: "event list" where
  "twoRequests = [Initialize, OnMessage Ready, GetEvaluation startFen (Some 15),
     OnMessage (Message infoCp34 (Some 1)), GetEvaluation fenAfterE4 None]"

text \<open>A request whose search reports a score but never completes, 30 s later.\<close>

definition stalledRequest :: "event list" where
  "stalledRequest = [OnMessage (Message infoCp34 (Some 1)), Tick 30000]"

text \<open>Search 1 completes in the worker while the main thread submits a second request
  before it handles the worker's messages.\<close>

definition misattributedRun :: "sys_event list" where
  "misattributedRun =
     [Call Initialize, StockfishSays 0 ''uciok'', MainTakes 0, MainTakes 0,
      Call (GetEvaluation startFen (Some 15)), WorkerTakes 0, WorkerTakes 0,
      StockfishSays 0 infoCp34, StockfishSays 0 ''bestmove e2e4 ponder e7e5'',
      Call (GetEvaluation fenAfterE4 (Some 15)), MainTakes 0, MainTakes 0]"


text \<open>The engine handles an output line of search 1 that carries no score, then a second
  request is submitted.\<close>

definition supersededRun :: "sys_event list" where
  "supersededRun =
     [Call Initialize, StockfishSays 0 ''uciok'', MainTakes 0, MainTakes 0,
      Call (GetEvaluation startFen (Some 15)), WorkerTakes 0, WorkerTakes 0,
      StockfishSays 0 infoNoScore, MainTakes 0, Call (GetEvaluation fenAfterE4 (Some 15))]"

text \<open>Search 1 completes in the worker; before the main thread handles the line it stops
  the evaluation and submits a new request.\<close>

definition resolvedAfterStopRun :: "sys_event list" where
  "resolvedAfterStopRun =
     [Call Initialize, StockfishSays 0 ''uciok'', MainTakes 0, MainTakes 0,
      Call (GetEvaluation startFen (Some 15)), WorkerTakes 0, WorkerTakes 0,
      StockfishSays 0 ''bestmove e2e4 ponder e7e5'', Call StopEvaluation,
      Call (GetEvaluation fenAfterE4 (Some 15)), MainTakes 0]"







text \<open>One pending request, a score line and a completion line: what both engines do.\<close>

definition roundtripResult :: "string \<times> string \<Rightarrow> string \<Rightarrow> string \<Rightarrow> EvaluationResult" where
  "roundtripResult g info best =
     \<lparr> score = scoreOf g,
       bestMove = (case bestMoveMatch best of Some mv \<Rightarrow> Some mv | None \<Rightarrow> pvMatch info) \<rparr>"

section \<open>Evaluation rules\<close>

lemmas string_defs = startsWith_def isDigit_def isFile_def isRank_def isPromotion_def pvMatch_def
  bestMoveMatch_def intGroup_def scoreAt_def digitValue_def digitsValue_def parseInt_def scoreOf_def

lemmas engine_defs = newEngine_def outcome_of_def wrappedSettle_def wrappedResolve_def
  wrappedReject_def isMapped_def firstUnmapped_def findEvalId_def handleInfo_def finalEvaluation_def
  handleBestmove_def handleStockfishMessage_def rejectPrevious_def previousUnmappedEvaluations_def
  getEvaluation_def timeoutFires_def rejectAll_def stopEvaluation_def destroy_def initialize_def
  restart_def run_def mapDelete_def

lemmas lib_defs = newEngine_lib_def outcome_of_lib_def wrappedSettle_lib_def handleInfo_lib_def
  handleBestmove_lib_def handleStockfishMessage_lib_def getEvaluation_lib_def timeoutFires_lib_def
  rejectAll_lib_def stopEvaluation_lib_def destroy_lib_def initialize_lib_def run_lib_def
  mapDelete_def

lemmas worker_defs = loadWorker_def stockfishOnmessage_def workerOnmessage_def digitChar_def
  newSystem_def sysRun_def terminated_def created_def inbox_def workerState_def

section \<open>Lines of the protocol\<close>

lemma info_not_bestmove: "startsWith m ''info'' \<Longrightarrow> \<not> startsWith m ''bestmove''"
  by (cases m) (auto simp: startsWith_def)

lemma startsWith_append: "startsWith s (p @ q) \<Longrightarrow> startsWith s p"
  unfolding startsWith_def
  by (metis append_eq_conv_conj length_append take_take min_def le_add1)

lemma scoreAt_startsWith: "scoreAt s = Some g \<Longrightarrow> startsWith s ''score''"
  using startsWith_append [of s "''score''" "'' cp ''"] startsWith_append [of s "''score''" "'' mate ''"]
  by (auto simp: scoreAt_def split: if_splits)

lemma scoreMatch_includes: "scoreMatch m = Some g \<Longrightarrow> str_includes m ''score''"
proof (induction m)
  case Nil
  then show ?case by simp
next
  case (Cons c cs)
  show ?case
  proof (cases "scoreAt (c # cs)")
    case None
    with Cons show ?thesis by simp
  next
    case (Some h)
    then have "startsWith (c # cs) ''score''" by (rule scoreAt_startsWith)
    then show ?thesis by simp
  qed
qed

lemma single_info:
  assumes "pendingEvaluations st = [(e, pe)]"
    and "searchIdToEvalId st = [] \<or> searchIdToEvalId st = [(sid, e)]"
    and "startsWith info ''info''" and "scoreMatch info = Some g"
  shows "handleStockfishMessage info (Some sid) st =
    st\<lparr> searchIdToEvalId := [(sid, e)],
        pendingEvaluations :=
          [(e, pe\<lparr> evaluation := Some \<lparr> score = scoreOf g, bestMove = pvMatch info \<rparr> \<rparr>)] \<rparr>"
proof -
  have nb: "\<not> startsWith info ''bestmove''" using assms(3) by (rule info_not_bestmove)
  have inc: "str_includes info ''score''" using assms(4) by (rule scoreMatch_includes)
  from assms(2) show ?thesis
  proof
    assume m: "searchIdToEvalId st = []"
    show ?thesis
      using assms(1,3,4) m nb inc
      by (simp add: handleStockfishMessage_def handleBestmove_def handleInfo_def findEvalId_def
          firstUnmapped_def isMapped_def)
  next
    assume m: "searchIdToEvalId st = [(sid, e)]"
    show ?thesis
      using assms(1,3,4) m nb inc
      by (simp add: handleStockfishMessage_def handleBestmove_def handleInfo_def findEvalId_def
          firstUnmapped_def isMapped_def)
  qed
qed

lemma single_bestmove:
  assumes "pendingEvaluations st = [(e, pe)]"
    and "searchIdToEvalId st = [] \<or> searchIdToEvalId st = [(sid, e)]"
    and "startsWith best ''bestmove''"
  shows "handleStockfishMessage best (Some sid) st =
    st\<lparr> timers := filter (\<lambda>t. fst t \<noteq> promise pe) (timers st),
        pendingEvaluations := [], searchIdToEvalId := [],
        settled := settled st @
          [(promise pe,
            case finalEvaluation best (evaluation pe) of
              Some r \<Rightarrow> Resolved r
            | None \<Rightarrow> Rejected ''Evaluation incomplete'')] \<rparr>"
proof -
  have ni: "\<not> startsWith best ''info''" using assms(3) info_not_bestmove by blast
  from assms(2) show ?thesis
  proof
    assume m: "searchIdToEvalId st = []"
    show ?thesis
      using assms(1,3) m ni
      by (cases "finalEvaluation best (evaluation pe)")
        (simp_all add: handleStockfishMessage_def handleBestmove_def handleInfo_def findEvalId_def
          firstUnmapped_def isMapped_def wrappedResolve_def wrappedReject_def wrappedSettle_def
          mapDelete_def)
  next
    assume m: "searchIdToEvalId st = [(sid, e)]"
    show ?thesis
      using assms(1,3) m ni
      by (cases "finalEvaluation best (evaluation pe)")
        (simp_all add: handleStockfishMessage_def handleBestmove_def handleInfo_def findEvalId_def
          firstUnmapped_def isMapped_def wrappedResolve_def wrappedReject_def wrappedSettle_def
          mapDelete_def)
  qed
qed

lemma single_info_lib:
  assumes "startsWith info ''info''" and "scoreMatch info = Some g"
  shows "handleStockfishMessage_lib info st =
    st\<lparr> currentEvaluation := Some \<lparr> score = scoreOf g, bestMove = pvMatch info \<rparr> \<rparr>"
proof -
  have nb: "\<not> startsWith info ''bestmove''" using assms(1) by (rule info_not_bestmove)
  have inc: "str_includes info ''score''" using assms(2) by (rule scoreMatch_includes)
  show ?thesis
    using assms nb inc
    by (simp add: handleStockfishMessage_lib_def handleBestmove_lib_def handleInfo_lib_def)
qed

lemma single_bestmove_lib:
  assumes "pendingEvaluations_lib st = [(e, p)]"
    and "currentEvaluation st = Some ev"
    and "startsWith best ''bestmove''"
  shows "handleStockfishMessage_lib best st =
    st\<lparr> timers_lib := filter (\<lambda>t. fst t \<noteq> p) (timers_lib st),
        pendingEvaluations_lib := [], currentEvaluation := None,
        settled_lib := settled_lib st @
          [(p, Resolved (case bestMoveMatch best of
                           Some mv \<Rightarrow> ev\<lparr> bestMove := Some mv \<rparr>
                         | None \<Rightarrow> ev))] \<rparr>"
proof -
  have ni: "\<not> startsWith best ''info''" using assms(3) info_not_bestmove by blast
  show ?thesis
    using assms ni
    by (cases "bestMoveMatch best")
      (simp_all add: handleStockfishMessage_lib_def handleBestmove_lib_def handleInfo_lib_def
        wrappedSettle_lib_def mapDelete_def)
qed

section \<open>The invariant is kept by every event\<close>

lemma same_promise_same_id:
  "distinct (map snd ps) \<Longrightarrow> (a, p) \<in> set ps \<Longrightarrow> (b, p) \<in> set ps \<Longrightarrow> a = b"
  by (metis distinct_map inj_onD prod.inject snd_conv)

lemma same_id_same_promise:
  "distinct (map fst ps) \<Longrightarrow> (e, p) \<in> set ps \<Longrightarrow> (e, q) \<in> set ps \<Longrightarrow> p = q"
  by (metis eq_key_imp_eq_value)

lemma deleteFirstMapping_subset: "set (deleteFirstMapping e m) \<subseteq> set m"
  by (induction m) (auto split: if_splits)

lemma deleteFirstMapping_values:
  "distinct (map snd m) \<Longrightarrow> snd ` set (deleteFirstMapping e m) = snd ` set m - {e}"
proof (induction m)
  case Nil
  then show ?case by simp
next
  case (Cons a m)
  obtain sid eid where a: "a = (sid, eid)" by (cases a)
  from Cons.prems a have notin: "eid \<notin> set (map snd m)" and dm: "distinct (map snd m)" by simp_all
  show ?case
  proof (cases "eid = e")
    case True
    with notin a show ?thesis by auto
  next
    case False
    with Cons.IH [OF dm] a show ?thesis by auto
  qed
qed

lemma deleteFirstMapping_distinct:
  "distinct (map snd m) \<Longrightarrow> distinct (map snd (deleteFirstMapping e m))"
proof (induction m)
  case Nil
  then show ?case by simp
next
  case (Cons a m)
  obtain sid eid where a: "a = (sid, eid)" by (cases a)
  from Cons.prems a have notin: "eid \<notin> set (map snd m)" and dm: "distinct (map snd m)" by simp_all
  have "eid \<notin> set (map snd (deleteFirstMapping e m))"
    using notin deleteFirstMapping_subset [of e m] by auto
  with Cons.IH [OF dm] dm a show ?case by simp
qed

lemma deleteFirstMapping_absent:
  "e \<notin> set (map snd m) \<Longrightarrow> deleteFirstMapping e m = m"
  by (induction m) auto

lemma coherent_settle:
  assumes c: "coherent lastId count clock ready ps mapping tms done"
    and mem: "(e, p) \<in> set ps"
  shows "coherent lastId count clock ready (filter (\<lambda>x. fst x \<noteq> e) ps)
     (deleteFirstMapping e mapping) (filter (\<lambda>t. fst t \<noteq> p) tms) (done @ [p])"
proof -
  from c have d1: "distinct (map fst ps)" and d2: "distinct (map snd ps)"
    and b: "\<forall>x \<in> set ps. fst x \<le> lastId \<and> snd x < count \<and> snd x \<notin> set done"
    and sub: "set (map snd mapping) \<subseteq> set (map fst ps)"
    and d3: "distinct (map snd mapping)"
    and tm: "\<forall>t \<in> set tms. (fst (snd t), fst t) \<in> set ps \<and> snd (snd t) \<le> clock + 30000"
    and dn: "\<forall>p \<in> set done. p < count"
    and rd: "ps \<noteq> [] \<longrightarrow> ready"
    and live: "\<forall>p < count. p \<in> set done \<or> p \<in> set (map fst tms)"
    and d4: "distinct (map fst tms)"
    by (simp_all add: coherent_def)
  let ?ps = "filter (\<lambda>x. fst x \<noteq> e) ps"
  have c1: "distinct (map fst ?ps)" using d1 by (simp add: distinct_map_filter)
  have c2: "distinct (map snd ?ps)" using d2 by (simp add: distinct_map_filter)
  have c3: "\<forall>x \<in> set ?ps. fst x \<le> lastId \<and> snd x < count \<and> snd x \<notin> set (done @ [p])"
  proof
    fix x assume x: "x \<in> set ?ps"
    then have xin: "(fst x, snd x) \<in> set ps" and ne: "fst x \<noteq> e" by simp_all
    have "snd x \<noteq> p" using same_promise_same_id [OF d2 xin] mem ne by blast
    with b xin show "fst x \<le> lastId \<and> snd x < count \<and> snd x \<notin> set (done @ [p])" by auto
  qed
  have c4: "set (map snd (deleteFirstMapping e mapping)) \<subseteq> set (map fst ?ps)"
  proof
    fix x assume "x \<in> set (map snd (deleteFirstMapping e mapping))"
    then have "x \<in> snd ` set (deleteFirstMapping e mapping)" by simp
    then have "x \<in> set (map snd mapping)" and "x \<noteq> e"
      by (simp_all add: deleteFirstMapping_values [OF d3])
    with sub obtain y where "y \<in> set ps" and "fst y = x" by auto
    with \<open>x \<noteq> e\<close> show "x \<in> set (map fst ?ps)" by auto
  qed
  have c5: "distinct (map snd (deleteFirstMapping e mapping))"
    using d3 by (rule deleteFirstMapping_distinct)
  have c6: "\<forall>t \<in> set (filter (\<lambda>t. fst t \<noteq> p) tms).
      (fst (snd t), fst t) \<in> set ?ps \<and> snd (snd t) \<le> clock + 30000"
  proof
    fix t assume t: "t \<in> set (filter (\<lambda>t. fst t \<noteq> p) tms)"
    then have tin: "t \<in> set tms" and ne: "fst t \<noteq> p" by simp_all
    from tm tin have pin: "(fst (snd t), fst t) \<in> set ps" and dl: "snd (snd t) \<le> clock + 30000"
      by simp_all
    have "fst (snd t) \<noteq> e" using same_id_same_promise [OF d1 pin] mem ne by blast
    with pin dl show "(fst (snd t), fst t) \<in> set ?ps \<and> snd (snd t) \<le> clock + 30000" by simp
  qed
  have c7: "\<forall>q \<in> set (done @ [p]). q < count" using dn b mem by auto
  have c8: "?ps \<noteq> [] \<longrightarrow> ready" using rd by auto
  have c9: "\<forall>q < count. q \<in> set (done @ [p]) \<or> q \<in> set (map fst (filter (\<lambda>t. fst t \<noteq> p) tms))"
  proof (intro allI impI)
    fix q assume "q < count"
    with live have "q \<in> set done \<or> q \<in> set (map fst tms)" by simp
    then show "q \<in> set (done @ [p]) \<or> q \<in> set (map fst (filter (\<lambda>t. fst t \<noteq> p) tms))"
      by (cases "q = p") auto
  qed
  have c10: "distinct (map fst (filter (\<lambda>t. fst t \<noteq> p) tms))"
    using d4 by (simp add: distinct_map_filter)
  show ?thesis
    unfolding coherent_def using c1 c2 c3 c4 c5 c6 c7 c8 c9 c10 by blast
qed

lemma pendingPairs_mapDelete:
  "map (\<lambda>entry. (fst entry, promise (snd entry))) (mapDelete e m) =
     filter (\<lambda>x. fst x \<noteq> e) (map (\<lambda>entry. (fst entry, promise (snd entry))) m)"
  by (induction m) (auto simp: mapDelete_def)

lemma wellFormed_settle:
  assumes "wellFormed st" and "(e, p) \<in> set (pendingPairs st)"
  shows "wellFormed (wrappedSettle e p oc st)"
  using coherent_settle [OF assms(1) [unfolded wellFormed_def] assms(2)]
  by (simp add: wellFormed_def wrappedSettle_def pendingPairs_def pendingPairs_mapDelete)


lemma firstUnmapped_Some:
  assumes "firstUnmapped st = Some e"
  shows "e \<in> fst ` set (pendingEvaluations st)" and "e \<notin> snd ` set (searchIdToEvalId st)"
proof -
  from assms obtain entry where
    f: "find (\<lambda>entry. \<not> isMapped st (fst entry)) (pendingEvaluations st) = Some entry"
    and e: "e = fst entry"
    by (auto simp: firstUnmapped_def)
  from f have "entry \<in> set (pendingEvaluations st)" and "\<not> isMapped st (fst entry)"
    by (auto simp: find_Some_iff)
  with e show "e \<in> fst ` set (pendingEvaluations st)" and "e \<notin> snd ` set (searchIdToEvalId st)"
    by (auto simp: isMapped_def)
qed

lemma findEvalId_cases:
  obtains (mapped) e where "map_of (searchIdToEvalId st) sid = Some e"
      and "findEvalId sid st = (Some e, st)"
  | (fresh) e where "map_of (searchIdToEvalId st) sid = None" and "firstUnmapped st = Some e"
      and "findEvalId sid st =
             (Some e, st\<lparr> searchIdToEvalId := searchIdToEvalId st @ [(sid, e)] \<rparr>)"
  | (none) "map_of (searchIdToEvalId st) sid = None" and "firstUnmapped st = None"
      and "findEvalId sid st = (None, st)"
  by (cases "map_of (searchIdToEvalId st) sid"; cases "firstUnmapped st")
    (auto simp: findEvalId_def)

lemma coherent_map_append:
  assumes "coherent lastId count clock ready ps mapping tms done"
    and "e \<in> fst ` set ps" and "e \<notin> snd ` set mapping"
  shows "coherent lastId count clock ready ps (mapping @ [(sid, e)]) tms done"
  using assms unfolding coherent_def by simp

lemma pendingPairs_keys: "fst ` set (pendingPairs st) = fst ` set (pendingEvaluations st)"
  by (force simp: pendingPairs_def)

lemma pendingPairs_member:
  "map_of (pendingEvaluations st) e = Some pe \<Longrightarrow> (e, promise pe) \<in> set (pendingPairs st)"
  by (force simp: pendingPairs_def dest: map_of_SomeD)

lemma wellFormed_findEvalId:
  assumes "wellFormed st"
  shows "wellFormed (snd (findEvalId sid st))"
proof (cases rule: findEvalId_cases [of st sid])
  case (mapped e)
  with assms show ?thesis by simp
next
  case (fresh e)
  from firstUnmapped_Some [OF fresh(2)]
  have "e \<in> fst ` set (pendingPairs st)" and "e \<notin> snd ` set (searchIdToEvalId st)"
    by (simp_all add: pendingPairs_keys)
  from coherent_map_append [OF assms [unfolded wellFormed_def] this]
  show ?thesis by (simp add: fresh(3) wellFormed_def pendingPairs_def)
next
  case none
  with assms show ?thesis by simp
qed

lemma findEvalId_fields:
  "pendingEvaluations (snd (findEvalId sid st)) = pendingEvaluations st"
  "settled (snd (findEvalId sid st)) = settled st"
  "timers (snd (findEvalId sid st)) = timers st"
  "promises (snd (findEvalId sid st)) = promises st"
  "evaluationId (snd (findEvalId sid st)) = evaluationId st"
  "now (snd (findEvalId sid st)) = now st"
  "worker (snd (findEvalId sid st)) = worker st"
  "isReady (snd (findEvalId sid st)) = isReady st"
  "posted (snd (findEvalId sid st)) = posted st"
  "workers (snd (findEvalId sid st)) = workers st"
  by (cases rule: findEvalId_cases [of st sid]; simp)+

lemma pendingPairs_mapSet:
  "map_of m e = Some pe \<Longrightarrow> promise pe' = promise pe \<Longrightarrow>
   map (\<lambda>entry. (fst entry, promise (snd entry))) (mapSet e pe' m) =
   map (\<lambda>entry. (fst entry, promise (snd entry))) m"
  by (induction m) (auto split: if_splits)

lemma handleInfo_cases:
  obtains (same) "handleInfo message searchId st = st"
  | (nomatch) sid where "searchId = Some sid"
      and "handleInfo message searchId st = snd (findEvalId sid st)"
  | (update) sid e pe g where "searchId = Some sid" and "startsWith message ''info''"
      and "scoreMatch message = Some g" and "fst (findEvalId sid st) = Some e"
      and "map_of (pendingEvaluations st) e = Some pe"
      and "handleInfo message searchId st =
             (snd (findEvalId sid st))\<lparr> pendingEvaluations :=
                mapSet e (pe\<lparr> evaluation :=
                            Some \<lparr> score = scoreOf g, bestMove = pvMatch message \<rparr> \<rparr>)
                  (pendingEvaluations st) \<rparr>"
proof (cases "startsWith message ''info'' \<and> str_includes message ''score''")
  case False
  then have "handleInfo message searchId st = st" by (auto simp add: handleInfo_def)
  then show ?thesis by (rule same)
next
  case cond: True
  show ?thesis
  proof (cases "scoreMatch message")
    case None
    with cond have "handleInfo message searchId st = st" by (simp add: handleInfo_def)
    then show ?thesis by (rule same)
  next
    case g: (Some g)
    show ?thesis
    proof (cases searchId)
      case None
      with cond g have "handleInfo message searchId st = st" by (simp add: handleInfo_def)
      then show ?thesis by (rule same)
    next
      case sid: (Some sid)
      obtain r st1 where f: "findEvalId sid st = (r, st1)" by (cases "findEvalId sid st")
      then have st1: "st1 = snd (findEvalId sid st)" and r: "r = fst (findEvalId sid st)"
        by simp_all
      have pend: "pendingEvaluations st1 = pendingEvaluations st"
        by (simp add: st1 findEvalId_fields)
      show ?thesis
      proof (cases r)
        case None
        with cond g sid f have "handleInfo message searchId st = snd (findEvalId sid st)"
          by (simp add: handleInfo_def)
        with sid show ?thesis by (rule nomatch)
      next
        case e: (Some e)
        show ?thesis
        proof (cases "map_of (pendingEvaluations st) e")
          case None
          with cond g sid f e pend have "handleInfo message searchId st = snd (findEvalId sid st)"
            by (simp add: handleInfo_def)
          with sid show ?thesis by (rule nomatch)
        next
          case pe: (Some pe)
          with cond g sid f e pend have "handleInfo message searchId st =
             (snd (findEvalId sid st))\<lparr> pendingEvaluations :=
                mapSet e (pe\<lparr> evaluation :=
                            Some \<lparr> score = scoreOf g, bestMove = pvMatch message \<rparr> \<rparr>)
                  (pendingEvaluations st) \<rparr>"
            by (simp add: handleInfo_def)
          with sid cond g e r pe show ?thesis by (intro update) simp_all
        qed
      qed
    qed
  qed
qed

lemma handleBestmove_cases:
  obtains (same) "handleBestmove message searchId st = st"
  | (nomatch) sid where "searchId = Some sid"
      and "handleBestmove message searchId st = snd (findEvalId sid st)"
  | (hit) sid e pe where "searchId = Some sid" and "startsWith message ''bestmove''"
      and "fst (findEvalId sid st) = Some e"
      and "map_of (pendingEvaluations st) e = Some pe"
      and "handleBestmove message searchId st =
             (wrappedSettle e (promise pe) (completion message pe) (snd (findEvalId sid st)))
               \<lparr> pendingEvaluations :=
                   mapDelete e (pendingEvaluations
                     (wrappedSettle e (promise pe) (completion message pe) (snd (findEvalId sid st)))),
                 searchIdToEvalId :=
                   mapDelete sid (searchIdToEvalId
                     (wrappedSettle e (promise pe) (completion message pe) (snd (findEvalId sid st)))) \<rparr>"
proof (cases "startsWith message ''bestmove''")
  case False
  then have "handleBestmove message searchId st = st" by (simp add: handleBestmove_def)
  then show ?thesis by (rule same)
next
  case cond: True
  show ?thesis
  proof (cases searchId)
    case None
    with cond have "handleBestmove message searchId st = st" by (simp add: handleBestmove_def)
    then show ?thesis by (rule same)
  next
    case sid: (Some sid)
    obtain r st1 where f: "findEvalId sid st = (r, st1)" by (cases "findEvalId sid st")
    then have st1: "st1 = snd (findEvalId sid st)" and r: "r = fst (findEvalId sid st)"
      by simp_all
    have pend: "pendingEvaluations st1 = pendingEvaluations st"
      by (simp add: st1 findEvalId_fields)
    show ?thesis
    proof (cases r)
      case None
      with cond sid f have "handleBestmove message searchId st = snd (findEvalId sid st)"
        by (simp add: handleBestmove_def)
      with sid show ?thesis by (rule nomatch)
    next
      case e: (Some e)
      show ?thesis
      proof (cases "map_of (pendingEvaluations st) e")
        case None
        with cond sid f e pend have "handleBestmove message searchId st = snd (findEvalId sid st)"
          by (simp add: handleBestmove_def)
        with sid show ?thesis by (rule nomatch)
      next
        case pe: (Some pe)
        have "handleBestmove message searchId st =
             (wrappedSettle e (promise pe) (completion message pe) (snd (findEvalId sid st)))
               \<lparr> pendingEvaluations :=
                   mapDelete e (pendingEvaluations
                     (wrappedSettle e (promise pe) (completion message pe) (snd (findEvalId sid st)))),
                 searchIdToEvalId :=
                   mapDelete sid (searchIdToEvalId
                     (wrappedSettle e (promise pe) (completion message pe) (snd (findEvalId sid st)))) \<rparr>"
          using cond sid f e pend pe
          by (cases "finalEvaluation message (evaluation pe)")
            (simp_all add: handleBestmove_def completion_def wrappedResolve_def wrappedReject_def
              Let_def)
        with sid cond e r pe show ?thesis by (intro hit) simp_all
      qed
    qed
  qed
qed

lemma handleInfo_fields:
  "pendingPairs (handleInfo message searchId st) = pendingPairs st"
  "settled (handleInfo message searchId st) = settled st"
  "timers (handleInfo message searchId st) = timers st"
  "promises (handleInfo message searchId st) = promises st"
  "evaluationId (handleInfo message searchId st) = evaluationId st"
  "now (handleInfo message searchId st) = now st"
  "worker (handleInfo message searchId st) = worker st"
  "isReady (handleInfo message searchId st) = isReady st"
  "posted (handleInfo message searchId st) = posted st"
  "workers (handleInfo message searchId st) = workers st"
  by (cases rule: handleInfo_cases [of message searchId st];
      simp add: pendingPairs_def pendingPairs_mapSet findEvalId_fields)+

lemma wellFormed_handleInfo:
  assumes "wellFormed st"
  shows "wellFormed (handleInfo message searchId st)"
proof (cases rule: handleInfo_cases [of message searchId st])
  case same
  with assms show ?thesis by simp
next
  case (nomatch sid)
  with assms show ?thesis by (simp add: wellFormed_findEvalId)
next
  case (update sid e pe g)
  have "wellFormed (snd (findEvalId sid st))" using assms by (rule wellFormed_findEvalId)
  then show ?thesis
    by (simp add: update(6) wellFormed_def pendingPairs_def findEvalId_fields
        pendingPairs_mapSet [OF update(5)])
qed

lemma coherent_map_filter:
  assumes "coherent lastId count clock ready ps mapping tms done"
  shows "coherent lastId count clock ready ps (filter P mapping) tms done"
  using assms unfolding coherent_def by (auto simp: distinct_map_filter)

lemma wellFormed_handleBestmove:
  assumes "wellFormed st"
  shows "wellFormed (handleBestmove message searchId st)"
proof (cases rule: handleBestmove_cases [of message searchId st])
  case same
  with assms show ?thesis by simp
next
  case (nomatch sid)
  with assms show ?thesis by (simp add: wellFormed_findEvalId)
next
  case (hit sid e pe)
  let ?st1 = "snd (findEvalId sid st)"
  have w1: "wellFormed ?st1" using assms by (rule wellFormed_findEvalId)
  have "map_of (pendingEvaluations ?st1) e = Some pe" by (simp add: findEvalId_fields hit(4))
  then have mem: "(e, promise pe) \<in> set (pendingPairs ?st1)" by (rule pendingPairs_member)
  have w2: "wellFormed (wrappedSettle e (promise pe) (completion message pe) ?st1)"
    using w1 mem by (rule wellFormed_settle)
  from coherent_map_filter [OF w2 [unfolded wellFormed_def], of "\<lambda>kv. fst kv \<noteq> sid"]
  show ?thesis
    by (simp add: hit(5) wellFormed_def pendingPairs_def mapDelete_def wrappedSettle_def)
qed

lemma wellFormed_handleStockfishMessage:
  "wellFormed st \<Longrightarrow> wellFormed (handleStockfishMessage message searchId st)"
  by (simp add: handleStockfishMessage_def wellFormed_handleInfo wellFormed_handleBestmove)


lemma wrappedSettle_fields:
  "pendingEvaluations (wrappedSettle e p oc st) = mapDelete e (pendingEvaluations st)"
  "searchIdToEvalId (wrappedSettle e p oc st) = deleteFirstMapping e (searchIdToEvalId st)"
  "timers (wrappedSettle e p oc st) = filter (\<lambda>t. fst t \<noteq> p) (timers st)"
  "settled (wrappedSettle e p oc st) = settled st @ [(p, oc)]"
  "promises (wrappedSettle e p oc st) = promises st"
  "evaluationId (wrappedSettle e p oc st) = evaluationId st"
  "now (wrappedSettle e p oc st) = now st"
  "worker (wrappedSettle e p oc st) = worker st"
  "isReady (wrappedSettle e p oc st) = isReady st"
  "posted (wrappedSettle e p oc st) = posted st"
  "workers (wrappedSettle e p oc st) = workers st"
  by (simp_all add: wrappedSettle_def)

lemma mapDelete_twice: "mapDelete k (mapDelete k m) = mapDelete k m"
  by (simp add: mapDelete_def)

lemma rejectPrevious_eq:
  "rejectPrevious eid st =
     (case map_of (pendingEvaluations st) eid of
        None \<Rightarrow> st
      | Some pe \<Rightarrow> wrappedSettle eid (promise pe) (Rejected ''Evaluation cancelled by new request'') st)"
  by (simp add: rejectPrevious_def wrappedReject_def wrappedSettle_def mapDelete_twice
      split: option.split)

lemma wellFormed_rejectPrevious:
  "wellFormed st \<Longrightarrow> wellFormed (rejectPrevious eid st)"
  by (auto simp: rejectPrevious_eq wellFormed_settle pendingPairs_member split: option.split)

lemma rejectPrevious_fields:
  "promises (rejectPrevious eid st) = promises st"
  "evaluationId (rejectPrevious eid st) = evaluationId st"
  "now (rejectPrevious eid st) = now st"
  "worker (rejectPrevious eid st) = worker st"
  "isReady (rejectPrevious eid st) = isReady st"
  "posted (rejectPrevious eid st) = posted st"
  "workers (rejectPrevious eid st) = workers st"
  by (simp_all add: rejectPrevious_eq wrappedSettle_fields split: option.split)

lemma rejectPrevious_pairs: "set (pendingPairs (rejectPrevious eid st)) \<subseteq> set (pendingPairs st)"
  by (auto simp: rejectPrevious_eq wrappedSettle_fields pendingPairs_def mapDelete_def
      split: option.split)

lemma fold_rejectPrevious_fields:
  "promises (fold rejectPrevious xs st) = promises st"
  "evaluationId (fold rejectPrevious xs st) = evaluationId st"
  "now (fold rejectPrevious xs st) = now st"
  "worker (fold rejectPrevious xs st) = worker st"
  "isReady (fold rejectPrevious xs st) = isReady st"
  "posted (fold rejectPrevious xs st) = posted st"
  "workers (fold rejectPrevious xs st) = workers st"
  by (induction xs arbitrary: st; simp add: rejectPrevious_fields)+

lemma wellFormed_fold_rejectPrevious:
  "wellFormed st \<Longrightarrow> wellFormed (fold rejectPrevious xs st)"
  by (induction xs arbitrary: st) (simp_all add: wellFormed_rejectPrevious)

lemma fold_rejectPrevious_pairs:
  "set (pendingPairs (fold rejectPrevious xs st)) \<subseteq> set (pendingPairs st)"
proof (induction xs arbitrary: st)
  case Nil
  then show ?case by simp
next
  case (Cons x xs)
  have "set (pendingPairs (fold rejectPrevious xs (rejectPrevious x st)))
      \<subseteq> set (pendingPairs (rejectPrevious x st))" by (rule Cons.IH)
  also have "\<dots> \<subseteq> set (pendingPairs st)" by (rule rejectPrevious_pairs)
  finally show ?case by simp
qed

lemma mapSet_fresh: "k \<notin> fst ` set m \<Longrightarrow> mapSet k v m = m @ [(k, v)]"
  by (induction m) auto

lemma coherent_submit:
  assumes c: "coherent lastId count clock ready ps mapping tms done"
    and lt: "\<forall>x \<in> set ps. fst x < lastId" and r: "ready"
  shows "coherent lastId (Suc count) clock ready (ps @ [(lastId, count)]) mapping
           (tms @ [(count, lastId, clock + 30000)]) done"
proof -
  from c have d1: "distinct (map fst ps)" and d2: "distinct (map snd ps)"
    and b: "\<forall>x \<in> set ps. fst x \<le> lastId \<and> snd x < count \<and> snd x \<notin> set done"
    and sub: "set (map snd mapping) \<subseteq> set (map fst ps)"
    and d3: "distinct (map snd mapping)"
    and tm: "\<forall>t \<in> set tms. (fst (snd t), fst t) \<in> set ps \<and> snd (snd t) \<le> clock + 30000"
    and dn: "\<forall>p \<in> set done. p < count"
    and live: "\<forall>p < count. p \<in> set done \<or> p \<in> set (map fst tms)"
    and d4: "distinct (map fst tms)"
    by (simp_all add: coherent_def)
  have c1: "distinct (map fst (ps @ [(lastId, count)]))" using d1 lt by auto
  have c2: "distinct (map snd (ps @ [(lastId, count)]))" using d2 b by auto
  have c3: "\<forall>x \<in> set (ps @ [(lastId, count)]).
      fst x \<le> lastId \<and> snd x < Suc count \<and> snd x \<notin> set done"
    using b dn by auto
  have c4: "set (map snd mapping) \<subseteq> set (map fst (ps @ [(lastId, count)]))" using sub by auto
  have c6: "\<forall>t \<in> set (tms @ [(count, lastId, clock + 30000)]).
      (fst (snd t), fst t) \<in> set (ps @ [(lastId, count)]) \<and> snd (snd t) \<le> clock + 30000"
    using tm by auto
  have c7: "\<forall>p \<in> set done. p < Suc count" using dn by auto
  have c9: "\<forall>p < Suc count. p \<in> set done \<or>
      p \<in> set (map fst (tms @ [(count, lastId, clock + 30000)]))"
  proof (intro allI impI)
    fix p assume "p < Suc count"
    then have "p < count \<or> p = count" by auto
    with live show "p \<in> set done \<or> p \<in> set (map fst (tms @ [(count, lastId, clock + 30000)]))"
      by auto
  qed
  have "count \<notin> fst ` set tms"
  proof
    assume "count \<in> fst ` set tms"
    then obtain t where t: "t \<in> set tms" and "fst t = count" by auto
    with tm have "(fst (snd t), count) \<in> set ps" by auto
    with b show False by force
  qed
  with d4 have c10: "distinct (map fst (tms @ [(count, lastId, clock + 30000)]))" by simp
  show ?thesis unfolding coherent_def using c1 c2 c3 c4 d3 c6 c7 c9 r c10 by blast
qed

lemma coherent_refuse:
  assumes c: "coherent lastId count clock ready ps mapping tms done"
  shows "coherent lastId (Suc count) clock ready ps mapping tms (done @ [count])"
proof -
  from c have d1: "distinct (map fst ps)" and d2: "distinct (map snd ps)"
    and b: "\<forall>x \<in> set ps. fst x \<le> lastId \<and> snd x < count \<and> snd x \<notin> set done"
    and sub: "set (map snd mapping) \<subseteq> set (map fst ps)"
    and d3: "distinct (map snd mapping)"
    and tm: "\<forall>t \<in> set tms. (fst (snd t), fst t) \<in> set ps \<and> snd (snd t) \<le> clock + 30000"
    and dn: "\<forall>p \<in> set done. p < count"
    and rd: "ps \<noteq> [] \<longrightarrow> ready"
    and live: "\<forall>p < count. p \<in> set done \<or> p \<in> set (map fst tms)"
    and d4: "distinct (map fst tms)"
    by (simp_all add: coherent_def)
  have c3: "\<forall>x \<in> set ps. fst x \<le> lastId \<and> snd x < Suc count \<and> snd x \<notin> set (done @ [count])"
    using b by auto
  have c7: "\<forall>p \<in> set (done @ [count]). p < Suc count" using dn by auto
  have c9: "\<forall>p < Suc count. p \<in> set (done @ [count]) \<or> p \<in> set (map fst tms)"
  proof (intro allI impI)
    fix p assume "p < Suc count"
    then have "p < count \<or> p = count" by auto
    with live show "p \<in> set (done @ [count]) \<or> p \<in> set (map fst tms)" by auto
  qed
  show ?thesis unfolding coherent_def using d1 d2 c3 sub d3 tm c7 rd c9 d4 by blast
qed

lemma previousUnmapped_evaluationId:
  "previousUnmappedEvaluations (st\<lparr> evaluationId := n \<rparr>) = previousUnmappedEvaluations st"
  by (simp add: previousUnmappedEvaluations_def isMapped_def)

lemma wellFormed_evaluationId:
  assumes "wellFormed st"
  shows "wellFormed (st\<lparr> evaluationId := evaluationId st + 1 \<rparr>)"
  using assms unfolding wellFormed_def coherent_def pendingPairs_def by auto

lemma wellFormed_getEvaluation:
  assumes w: "wellFormed st"
  shows "wellFormed (getEvaluation fen depth st)"
proof (cases "worker st \<noteq> None \<and> isReady st")
  case False
  from coherent_refuse [OF w [unfolded wellFormed_def]] False
  show ?thesis
    by (cases "worker st")
      (simp_all add: getEvaluation_def wellFormed_def pendingPairs_def Let_def)
next
  case True
  then obtain wk where wk: "worker st = Some wk" and rdy: "isReady st" by auto
  let ?evalId = "Suc (evaluationId st)"
  let ?st1 = "st\<lparr> evaluationId := ?evalId \<rparr>"
  let ?st2 = "fold rejectPrevious (previousUnmappedEvaluations ?st1) ?st1"
  have w1: "wellFormed ?st1" using wellFormed_evaluationId [OF w] by simp
  have w2: "wellFormed ?st2" using w1 by (rule wellFormed_fold_rejectPrevious)
  have f2: "evaluationId ?st2 = ?evalId" "promises ?st2 = promises st" "now ?st2 = now st"
    "worker ?st2 = Some wk" "isReady ?st2"
    by (simp_all add: fold_rejectPrevious_fields wk rdy)
  have "set (pendingPairs ?st2) \<subseteq> set (pendingPairs ?st1)" by (rule fold_rejectPrevious_pairs)
  moreover have "pendingPairs ?st1 = pendingPairs st" by (simp add: pendingPairs_def)
  moreover from w have "\<forall>x \<in> set (pendingPairs st). fst x \<le> evaluationId st"
    by (simp add: wellFormed_def coherent_def)
  ultimately have lt: "\<forall>x \<in> set (pendingPairs ?st2). fst x < ?evalId" by fastforce
  then have fresh: "?evalId \<notin> fst ` set (pendingEvaluations ?st2)"
    by (force simp: pendingPairs_def)
  have c2: "coherent ?evalId (promises st) (now st) True (pendingPairs ?st2)
      (searchIdToEvalId ?st2) (timers ?st2) (map fst (settled ?st2))"
    using w2 by (simp add: wellFormed_def f2)
  from coherent_submit [OF c2 lt]
  show ?thesis
    by (simp add: getEvaluation_def wk rdy Let_def wellFormed_def pendingPairs_def
        mapSet_fresh [OF fresh] f2)
qed


lemma wellFormed_timers:
  assumes "wellFormed st" and "map_of (timers st) p = Some (e, d)"
  shows "(e, p) \<in> set (pendingPairs st)" and "d \<le> now st + 30000"
proof -
  from assms(2) have "(p, e, d) \<in> set (timers st)" by (rule map_of_SomeD)
  moreover from assms(1) have "\<forall>t \<in> set (timers st).
      (fst (snd t), fst t) \<in> set (pendingPairs st) \<and> snd (snd t) \<le> now st + 30000"
    by (simp add: wellFormed_def coherent_def)
  ultimately show "(e, p) \<in> set (pendingPairs st)" and "d \<le> now st + 30000" by force+
qed

lemma wellFormed_timeoutFires:
  assumes "wellFormed st"
  shows "wellFormed (timeoutFires p st)"
proof (cases "map_of (timers st) p")
  case None
  with assms show ?thesis by (simp add: timeoutFires_def)
next
  case (Some a)
  obtain e d where a: "a = (e, d)" by (cases a)
  from wellFormed_timers(1) [OF assms Some [unfolded a]]
  have "wellFormed (wrappedSettle e p (Rejected ''Evaluation timeout'') st)"
    by (rule wellFormed_settle [OF assms])
  with assms Some a show ?thesis by (simp add: timeoutFires_def wrappedReject_def)
qed


lemma fold_reject_settled:
  "settled (fold (\<lambda>entry. wrappedReject (fst entry) (promise (snd entry)) msg) es st) =
     settled st @ map (\<lambda>entry. (promise (snd entry), Rejected msg)) es"
  by (induction es arbitrary: st) (simp_all add: wrappedReject_def wrappedSettle_fields)

lemma fold_reject_pending:
  "pendingEvaluations (fold (\<lambda>entry. wrappedReject (fst entry) (promise (snd entry)) msg) es st) =
     filter (\<lambda>x. fst x \<notin> fst ` set es) (pendingEvaluations st)"
  by (induction es arbitrary: st)
    (auto simp: wrappedReject_def wrappedSettle_fields mapDelete_def intro: filter_cong)

lemma wellFormed_fold_reject:
  assumes "wellFormed st" and "set es \<subseteq> set (pendingEvaluations st)" and "distinct (map fst es)"
  shows "wellFormed (fold (\<lambda>entry. wrappedReject (fst entry) (promise (snd entry)) msg) es st)"
  using assms
proof (induction es arbitrary: st)
  case Nil
  then show ?case by simp
next
  case (Cons a es)
  let ?st1 = "wrappedSettle (fst a) (promise (snd a)) (Rejected msg) st"
  from Cons.prems(2) have "a \<in> set (pendingEvaluations st)" by simp
  then have "(fst a, promise (snd a)) \<in> set (pendingPairs st)"
    by (force simp: pendingPairs_def)
  with Cons.prems(1) have w1: "wellFormed ?st1" by (rule wellFormed_settle)
  have sub: "set es \<subseteq> set (pendingEvaluations ?st1)"
  proof
    fix x assume x: "x \<in> set es"
    with Cons.prems(2) have "x \<in> set (pendingEvaluations st)" by auto
    moreover have "fst x \<noteq> fst a"
    proof
      assume "fst x = fst a"
      with x have "fst a \<in> fst ` set es" by (metis imageI)
      with Cons.prems(3) show False by simp
    qed
    ultimately show "x \<in> set (pendingEvaluations ?st1)"
      by (simp add: wrappedSettle_fields mapDelete_def)
  qed
  from Cons.prems(3) have "distinct (map fst es)" by simp
  from Cons.IH [OF w1 sub this] show ?case by (simp add: wrappedReject_def)
qed

lemma wellFormed_distinct_keys: "wellFormed st \<Longrightarrow> distinct (map fst (pendingEvaluations st))"
  by (simp add: wellFormed_def coherent_def pendingPairs_def comp_def)

lemma wellFormed_rejectAll: "wellFormed st \<Longrightarrow> wellFormed (rejectAll msg st)"
  unfolding rejectAll_def
  by (rule wellFormed_fold_reject) (simp_all add: wellFormed_distinct_keys)

lemma rejectAll_pending: "pendingEvaluations (rejectAll msg st) = []"
  by (simp add: rejectAll_def fold_reject_pending)

lemma rejectAll_settled:
  "settled (rejectAll msg st) =
     settled st @ map (\<lambda>entry. (promise (snd entry), Rejected msg)) (pendingEvaluations st)"
  by (simp add: rejectAll_def fold_reject_settled)


lemma coherent_empty:
  assumes "coherent lastId count clock ready [] mapping tms done"
  shows "coherent lastId' count clock ready' [] [] tms done"
  using assms unfolding coherent_def by simp

lemma wellFormed_clear:
  assumes "wellFormed st" and "pendingEvaluations st = []"
  shows "wellFormed (st\<lparr> pendingEvaluations := [], searchIdToEvalId := [] \<rparr>)"
    and "wellFormed (st\<lparr> pendingEvaluations := [], searchIdToEvalId := [], worker := None,
           isReady := False, evaluationId := 0 \<rparr>)"
  using coherent_empty [of "evaluationId st" "promises st" "now st" _ "searchIdToEvalId st"
      "timers st" "map fst (settled st)"] assms
  by (simp_all add: wellFormed_def pendingPairs_def)

lemma wellFormed_posted: "wellFormed (st\<lparr> posted := x \<rparr>) = wellFormed st"
  by (simp add: wellFormed_def pendingPairs_def)

lemma wellFormed_stopEvaluation:
  assumes "wellFormed st"
  shows "wellFormed (stopEvaluation st)"
proof (cases "worker st")
  case None
  with assms show ?thesis by (simp add: stopEvaluation_def)
next
  case (Some w)
  show ?thesis
  proof (cases "isReady st")
    case False
    with assms Some show ?thesis by (simp add: stopEvaluation_def)
  next
    case True
    let ?st2 = "rejectAll ''Evaluation stopped'' (st\<lparr> posted := posted st @ [(w, None, Stop)] \<rparr>)"
    have "wellFormed ?st2" using assms by (simp add: wellFormed_rejectAll wellFormed_posted)
    from wellFormed_clear(1) [OF this rejectAll_pending]
    show ?thesis using Some True by (simp add: stopEvaluation_def Let_def)
  qed
qed

lemma wellFormed_destroy:
  assumes "wellFormed st"
  shows "wellFormed (destroy st)"
proof (cases "worker st")
  case None
  with assms show ?thesis by (simp add: destroy_def)
next
  case (Some w)
  let ?st2 = "rejectAll ''Worker terminated'' (stopEvaluation st)"
  have "wellFormed ?st2" using assms by (simp add: wellFormed_rejectAll wellFormed_stopEvaluation)
  from wellFormed_clear(2) [OF this rejectAll_pending]
  show ?thesis using Some by (simp add: destroy_def Let_def)
qed

lemma coherent_ready:
  assumes "coherent lastId count clock ready ps mapping tms done" and "ready \<longrightarrow> ready'"
  shows "coherent lastId count clock ready' ps mapping tms done"
  using assms unfolding coherent_def by blast

lemma coherent_clock:
  assumes "coherent lastId count clock ready ps mapping tms done" and "clock \<le> clock'"
  shows "coherent lastId count clock' ready ps mapping tms done"
  using assms unfolding coherent_def by fastforce

lemma wellFormed_initialize:
  assumes "wellFormed st"
  shows "wellFormed (initialize st)"
  using coherent_ready [OF assms [unfolded wellFormed_def], of "isReady st"]
  by (simp add: wellFormed_def initialize_def pendingPairs_def)

lemma wellFormed_onmessage:
  assumes "wellFormed st"
  shows "wellFormed (onmessage m st)"
proof (cases m)
  case Ready
  from coherent_ready [OF assms [unfolded wellFormed_def], of "worker st \<noteq> None"]
  show ?thesis by (simp add: Ready wellFormed_def pendingPairs_def)
next
  case (Message message searchId)
  with assms show ?thesis by (simp add: wellFormed_handleStockfishMessage)
next
  case (WorkerError x)
  with assms show ?thesis by simp
next
  case Other
  with assms show ?thesis by simp
qed

lemma wellFormed_tick:
  assumes "wellFormed st"
  shows "wellFormed (st\<lparr> now := now st + d \<rparr>)"
  using coherent_clock [OF assms [unfolded wellFormed_def], of "now st + d"]
  by (simp add: wellFormed_def pendingPairs_def)

lemma wellFormed_step: "wellFormed st \<Longrightarrow> wellFormed (step ev st)"
  by (cases ev)
    (simp_all add: wellFormed_initialize wellFormed_getEvaluation wellFormed_stopEvaluation
      wellFormed_destroy restart_def wellFormed_onmessage wellFormed_timeoutFires wellFormed_tick)

lemma wellFormed_run: "wellFormed st \<Longrightarrow> wellFormed (run evs st)"
  unfolding run_def by (induction evs arbitrary: st) (simp_all add: wellFormed_step)

lemma wellFormed_newEngine: "wellFormed newEngine"
  by (simp add: wellFormed_def coherent_def newEngine_def pendingPairs_def)

lemma wellFormed_reachable: "wellFormed (run evs newEngine)"
  by (rule wellFormed_run [OF wellFormed_newEngine])

section \<open>Settlements are final and timers stay armed\<close>

lemma evolves_refl: "evolves st st"
  by (simp add: evolves_def)

lemma evolves_eq:
  "settled st' = settled st \<Longrightarrow> timers st' = timers st \<Longrightarrow> now st \<le> now st' \<Longrightarrow> evolves st st'"
  by (simp add: evolves_def)

lemma evolves_trans:
  assumes "evolves a b" and "evolves b c"
  shows "evolves a c"
proof -
  from assms(1) obtain n1 where s1: "settled b = settled a @ n1"
    and t1: "\<forall>p x. map_of (timers a) p = Some x \<longrightarrow> map_of (timers b) p = Some x \<or> p \<in> fst ` set n1"
    and c1: "now a \<le> now b"
    by (auto simp: evolves_def)
  from assms(2) obtain n2 where s2: "settled c = settled b @ n2"
    and t2: "\<forall>p x. map_of (timers b) p = Some x \<longrightarrow> map_of (timers c) p = Some x \<or> p \<in> fst ` set n2"
    and c2: "now b \<le> now c"
    by (auto simp: evolves_def)
  have s: "settled c = settled a @ (n1 @ n2)" using s1 s2 by simp
  have t: "\<forall>p x. map_of (timers a) p = Some x \<longrightarrow>
      map_of (timers c) p = Some x \<or> p \<in> fst ` set (n1 @ n2)"
  proof (intro allI impI)
    fix p x assume "map_of (timers a) p = Some x"
    with t1 have "map_of (timers b) p = Some x \<or> p \<in> fst ` set n1" by blast
    then show "map_of (timers c) p = Some x \<or> p \<in> fst ` set (n1 @ n2)"
    proof
      assume "map_of (timers b) p = Some x"
      with t2 have "map_of (timers c) p = Some x \<or> p \<in> fst ` set n2" by blast
      then show ?thesis by auto
    next
      assume "p \<in> fst ` set n1"
      then show ?thesis by auto
    qed
  qed
  from s t c1 c2 show ?thesis unfolding evolves_def by (intro conjI exI [of _ "n1 @ n2"]) auto
qed

lemma map_of_filter_other:
  "q \<noteq> p \<Longrightarrow> map_of (filter (\<lambda>t. fst t \<noteq> p) tms) q = map_of tms q"
  by (induction tms) auto

lemma evolves_settle: "evolves st (wrappedSettle e p oc st)"
  unfolding evolves_def
proof (intro conjI exI [of _ "[(p, oc)]"] allI impI)
  fix q x assume "map_of (timers st) q = Some x"
  then show "map_of (timers (wrappedSettle e p oc st)) q = Some x \<or> q \<in> fst ` set [(p, oc)]"
    by (cases "q = p") (simp_all add: wrappedSettle_fields map_of_filter_other)
qed (simp_all add: wrappedSettle_fields)

lemma evolves_arm:
  assumes "settled st' = settled st" and "timers st' = timers st @ ts" and "now st \<le> now st'"
  shows "evolves st st'"
  using assms by (auto simp: evolves_def map_add_def)

lemma evolves_refuse:
  assumes "settled st' = settled st @ new" and "timers st' = timers st" and "now st \<le> now st'"
  shows "evolves st st'"
  using assms by (auto simp: evolves_def)

lemma evolves_handleInfo: "evolves st (handleInfo message searchId st)"
  by (rule evolves_eq) (simp_all add: handleInfo_fields)

lemma evolves_handleBestmove: "evolves st (handleBestmove message searchId st)"
proof (cases rule: handleBestmove_cases [of message searchId st])
  case same
  then show ?thesis by (simp add: evolves_refl)
next
  case (nomatch sid)
  then show ?thesis by (simp add: evolves_eq findEvalId_fields)
next
  case (hit sid e pe)
  let ?st1 = "snd (findEvalId sid st)"
  let ?st2 = "wrappedSettle e (promise pe) (completion message pe) ?st1"
  have "evolves st ?st1" by (simp add: evolves_eq findEvalId_fields)
  moreover have "evolves ?st1 ?st2" by (rule evolves_settle)
  moreover have "evolves ?st2 (handleBestmove message searchId st)"
    by (rule evolves_eq) (simp_all add: hit(5))
  ultimately show ?thesis by (blast intro: evolves_trans)
qed

lemma evolves_handleStockfishMessage: "evolves st (handleStockfishMessage message searchId st)"
  unfolding handleStockfishMessage_def
  by (rule evolves_trans [OF evolves_handleInfo evolves_handleBestmove])

lemma evolves_rejectPrevious: "evolves st (rejectPrevious eid st)"
  by (simp add: rejectPrevious_eq evolves_refl evolves_settle split: option.split)

lemma evolves_fold_rejectPrevious: "evolves st (fold rejectPrevious xs st)"
proof (induction xs arbitrary: st)
  case Nil
  then show ?case by (simp add: evolves_refl)
next
  case (Cons x xs)
  from evolves_rejectPrevious Cons.IH show ?case
    by (simp add: evolves_trans [where b = "rejectPrevious x st"])
qed

lemma evolves_getEvaluation: "evolves st (getEvaluation fen depth st)"
proof (cases "worker st \<noteq> None \<and> isReady st")
  case False
  show ?thesis
    by (rule evolves_refuse [where new =
          "[(promises st, Rejected ''Chess engine not initialized. Call initialize() first.'')]"])
      (use False in \<open>cases "worker st"; simp add: getEvaluation_def Let_def\<close>)+
next
  case True
  then obtain wk where wk: "worker st = Some wk" and rdy: "isReady st" by auto
  let ?st1 = "st\<lparr> evaluationId := Suc (evaluationId st) \<rparr>"
  let ?st2 = "fold rejectPrevious (previousUnmappedEvaluations ?st1) ?st1"
  have "evolves st ?st1" by (simp add: evolves_eq)
  moreover have "evolves ?st1 ?st2" by (rule evolves_fold_rejectPrevious)
  moreover have "evolves ?st2 (getEvaluation fen depth st)"
    by (rule evolves_arm [where ts =
          "[(promises st, Suc (evaluationId st), now ?st2 + 30000)]"])
      (simp_all add: getEvaluation_def wk rdy Let_def)
  ultimately show ?thesis by (blast intro: evolves_trans)
qed

lemma evolves_timeoutFires: "evolves st (timeoutFires p st)"
  by (simp add: timeoutFires_def wrappedReject_def evolves_refl evolves_settle
      split: option.split prod.split)

lemma evolves_fold_reject:
  "evolves st (fold (\<lambda>entry. wrappedReject (fst entry) (promise (snd entry)) msg) es st)"
proof (induction es arbitrary: st)
  case Nil
  then show ?case by (simp add: evolves_refl)
next
  case (Cons a es)
  have "evolves st (wrappedReject (fst a) (promise (snd a)) msg st)"
    by (simp add: wrappedReject_def evolves_settle)
  with Cons.IH show ?case
    by (simp add: evolves_trans [where b = "wrappedReject (fst a) (promise (snd a)) msg st"])
qed

lemma evolves_rejectAll: "evolves st (rejectAll msg st)"
  by (simp add: rejectAll_def evolves_fold_reject)

lemma evolves_stopEvaluation: "evolves st (stopEvaluation st)"
proof (cases "worker st \<noteq> None \<and> isReady st")
  case False
  then show ?thesis by (cases "worker st") (simp_all add: stopEvaluation_def evolves_refl)
next
  case True
  then obtain wk where wk: "worker st = Some wk" and rdy: "isReady st" by auto
  let ?st1 = "st\<lparr> posted := posted st @ [(wk, None, Stop)] \<rparr>"
  let ?st2 = "rejectAll ''Evaluation stopped'' ?st1"
  have "evolves st ?st1" by (simp add: evolves_eq)
  moreover have "evolves ?st1 ?st2" by (rule evolves_rejectAll)
  moreover have "evolves ?st2 (stopEvaluation st)"
    by (rule evolves_eq) (simp_all add: stopEvaluation_def wk rdy Let_def)
  ultimately show ?thesis by (blast intro: evolves_trans)
qed

lemma evolves_destroy: "evolves st (destroy st)"
proof (cases "worker st")
  case None
  then show ?thesis by (simp add: destroy_def evolves_refl)
next
  case (Some wk)
  let ?st1 = "stopEvaluation st"
  let ?st2 = "rejectAll ''Worker terminated'' ?st1"
  have "evolves st ?st1" by (rule evolves_stopEvaluation)
  moreover have "evolves ?st1 ?st2" by (rule evolves_rejectAll)
  moreover have "evolves ?st2 (destroy st)"
    by (rule evolves_eq) (simp_all add: destroy_def Some Let_def)
  ultimately show ?thesis by (blast intro: evolves_trans)
qed

lemma evolves_initialize: "evolves st (initialize st)"
  by (rule evolves_eq) (simp_all add: initialize_def)

lemma evolves_onmessage: "evolves st (onmessage m st)"
  by (cases m) (simp_all add: evolves_handleStockfishMessage evolves_refl evolves_eq)

lemma evolves_step: "evolves st (step ev st)"
proof (cases ev)
  case Restart
  have "evolves st (destroy st)" by (rule evolves_destroy)
  moreover have "evolves (destroy st) (initialize (destroy st))" by (rule evolves_initialize)
  ultimately show ?thesis by (simp add: Restart restart_def evolves_trans [where b = "destroy st"])
qed (simp_all add: evolves_initialize evolves_getEvaluation evolves_stopEvaluation
      evolves_destroy evolves_onmessage evolves_timeoutFires evolves_eq)

lemma evolves_run: "evolves st (run evs st)"
  unfolding run_def
proof (induction evs arbitrary: st)
  case Nil
  then show ?case by (simp add: evolves_refl)
next
  case (Cons ev evs)
  from evolves_step Cons.IH show ?case
    by (simp add: evolves_trans [where b = "step ev st"])
qed

lemma evolves_outcome:
  assumes "evolves st st'" and "outcome_of st p = Some oc"
  shows "outcome_of st' p = Some oc"
  using assms by (auto simp: evolves_def outcome_of_def map_add_def)

lemma evolves_timer:
  assumes "evolves st st'" and "map_of (timers st) p = Some x" and "outcome_of st' p = None"
  shows "map_of (timers st') p = Some x"
proof -
  from assms(1) obtain new where s: "settled st' = settled st @ new"
    and t: "\<forall>p x. map_of (timers st) p = Some x \<longrightarrow> map_of (timers st') p = Some x \<or> p \<in> fst ` set new"
    by (auto simp: evolves_def)
  from assms(3) s have "map_of new p = None" by (simp add: outcome_of_def map_add_def split: option.splits)
  then have "p \<notin> fst ` set new" by (simp add: map_of_eq_None_iff)
  with t assms(2) show ?thesis by blast
qed

section \<open>Submitting a request\<close>

lemma wellFormed_unsettled:
  assumes "wellFormed st" and "map_of (pendingEvaluations st) e = Some pe"
  shows "outcome_of st (promise pe) = None" and "promise pe < promises st"
proof -
  from assms(2) have "(e, promise pe) \<in> set (pendingPairs st)" by (rule pendingPairs_member)
  moreover from assms(1) have "\<forall>x \<in> set (pendingPairs st).
      fst x \<le> evaluationId st \<and> snd x < promises st \<and> snd x \<notin> set (map fst (settled st))"
    by (simp add: wellFormed_def coherent_def)
  ultimately have "promise pe < promises st \<and> promise pe \<notin> set (map fst (settled st))" by force
  then show "outcome_of st (promise pe) = None" and "promise pe < promises st"
    by (simp_all add: outcome_of_def map_of_eq_None_iff)
qed

lemma wellFormed_fresh_promise:
  assumes "wellFormed st"
  shows "outcome_of st (promises st) = None" and "map_of (timers st) (promises st) = None"
proof -
  from assms have dn: "\<forall>p \<in> set (map fst (settled st)). p < promises st"
    and tm: "\<forall>t \<in> set (timers st). (fst (snd t), fst t) \<in> set (pendingPairs st)"
    and b: "\<forall>x \<in> set (pendingPairs st). snd x < promises st"
    by (simp_all add: wellFormed_def coherent_def)
  from dn have "promises st \<notin> fst ` set (settled st)" by auto
  then show "outcome_of st (promises st) = None"
    by (simp add: outcome_of_def map_of_eq_None_iff)
  have "promises st \<notin> fst ` set (timers st)"
  proof
    assume "promises st \<in> fst ` set (timers st)"
    then obtain t where "t \<in> set (timers st)" and "fst t = promises st" by auto
    with tm have "(fst (snd t), promises st) \<in> set (pendingPairs st)" by auto
    with b show False by force
  qed
  then show "map_of (timers st) (promises st) = None" by (simp add: map_of_eq_None_iff)
qed

lemma getEvaluation_ready:
  assumes "worker st = Some wk" and "isReady st"
  shows "getEvaluation fen depth st =
     (fold rejectPrevious (previousUnmappedEvaluations st) (st\<lparr> evaluationId := Suc (evaluationId st) \<rparr>))
       \<lparr> pendingEvaluations :=
           mapSet (Suc (evaluationId st)) \<lparr> promise = promises st, evaluation = None \<rparr>
             (pendingEvaluations (fold rejectPrevious (previousUnmappedEvaluations st)
                (st\<lparr> evaluationId := Suc (evaluationId st) \<rparr>))),
         timers := timers (fold rejectPrevious (previousUnmappedEvaluations st)
                (st\<lparr> evaluationId := Suc (evaluationId st) \<rparr>))
             @ [(promises st, Suc (evaluationId st), now st + 30000)],
         posted := posted st @
           [(wk, Some (promises st), Evaluate (''fen '' @ fen)
               (case depth of None \<Rightarrow> 15 | Some d \<Rightarrow> d))],
         promises := Suc (promises st) \<rparr>"
  using assms
  by (simp add: getEvaluation_def Let_def previousUnmapped_evaluationId fold_rejectPrevious_fields)

lemma getEvaluation_timer:
  assumes w: "wellFormed st" and wk: "worker st = Some wk" and rdy: "isReady st"
  shows "map_of (timers (getEvaluation fen depth st)) (promises st)
           = Some (Suc (evaluationId st), now st + 30000)"
proof -
  let ?st1 = "st\<lparr> evaluationId := Suc (evaluationId st) \<rparr>"
  let ?st2 = "fold rejectPrevious (previousUnmappedEvaluations st) ?st1"
  have "wellFormed ?st1" using wellFormed_evaluationId [OF w] by simp
  then have "wellFormed ?st2" by (rule wellFormed_fold_rejectPrevious)
  from wellFormed_fresh_promise(2) [OF this]
  have "map_of (timers ?st2) (promises st) = None" by (simp add: fold_rejectPrevious_fields)
  then show ?thesis by (simp add: getEvaluation_ready [OF wk rdy] map_add_def)
qed


lemma deleteFirstMapping_gone:
  "distinct (map snd m) \<Longrightarrow> e \<notin> snd ` set (deleteFirstMapping e m)"
  by (simp add: deleteFirstMapping_values)

lemma map_of_filter_self: "map_of (filter (\<lambda>t. fst t \<noteq> k) m) k = None"
  by (auto simp: map_of_eq_None_iff)

lemma map_of_mapDelete: "map_of (mapDelete e m) e = None"
  by (simp add: mapDelete_def map_of_filter_self)

lemma map_of_const:
  "k \<in> f ` set es \<Longrightarrow> map_of (map (\<lambda>e. (f e, c)) es) k = Some c"
  by (induction es) auto

lemma map_of_const_none:
  "k \<notin> f ` set es \<Longrightarrow> map_of (map (\<lambda>e. (f e, c)) es) k = None"
  by (induction es) auto

lemma fold_rejectPrevious_as_reject:
  assumes "distinct (map fst (pendingEvaluations st))"
    and "set es \<subseteq> set (pendingEvaluations st)" and "distinct (map fst es)"
  shows "fold rejectPrevious (map fst es) st =
     fold (\<lambda>entry. wrappedReject (fst entry) (promise (snd entry))
       ''Evaluation cancelled by new request'') es st"
  using assms
proof (induction es arbitrary: st)
  case Nil
  then show ?case by simp
next
  case (Cons a es)
  let ?st1 = "wrappedSettle (fst a) (promise (snd a))
      (Rejected ''Evaluation cancelled by new request'') st"
  from Cons.prems(2) have "(fst a, snd a) \<in> set (pendingEvaluations st)" by simp
  with Cons.prems(1) have "map_of (pendingEvaluations st) (fst a) = Some (snd a)"
    by (rule map_of_is_SomeI)
  then have step: "rejectPrevious (fst a) st = ?st1" by (simp add: rejectPrevious_eq)
  have d1: "distinct (map fst (pendingEvaluations ?st1))"
    using Cons.prems(1) by (simp add: wrappedSettle_fields mapDelete_def distinct_map_filter)
  have sub: "set es \<subseteq> set (pendingEvaluations ?st1)"
  proof
    fix x assume x: "x \<in> set es"
    with Cons.prems(2) have "x \<in> set (pendingEvaluations st)" by auto
    moreover have "fst x \<noteq> fst a"
    proof
      assume "fst x = fst a"
      with x have "fst a \<in> fst ` set es" by (metis imageI)
      with Cons.prems(3) show False by simp
    qed
    ultimately show "x \<in> set (pendingEvaluations ?st1)"
      by (simp add: wrappedSettle_fields mapDelete_def)
  qed
  from Cons.prems(3) have "distinct (map fst es)" by simp
  from Cons.IH [OF d1 sub this] show ?case by (simp add: step wrappedReject_def)
qed

lemma fold_reject_mapping:
  assumes "\<forall>x \<in> set es. fst x \<notin> snd ` set (searchIdToEvalId st)"
  shows "searchIdToEvalId (fold (\<lambda>entry. wrappedReject (fst entry) (promise (snd entry)) msg) es st)
     = searchIdToEvalId st"
  using assms
proof (induction es arbitrary: st)
  case Nil
  then show ?case by simp
next
  case (Cons a es)
  let ?st1 = "wrappedReject (fst a) (promise (snd a)) msg st"
  from Cons.prems have "fst a \<notin> set (map snd (searchIdToEvalId st))" by simp
  then have m: "searchIdToEvalId ?st1 = searchIdToEvalId st"
    by (simp add: wrappedReject_def wrappedSettle_fields deleteFirstMapping_absent)
  with Cons.prems have "\<forall>x \<in> set es. fst x \<notin> snd ` set (searchIdToEvalId ?st1)" by simp
  from Cons.IH [OF this] m show ?case by simp
qed

text \<open>What a call of \<^verbatim>\<open>getEvaluation\<close> on a ready engine does to the three tables.\<close>

lemma getEvaluation_effect:
  assumes w: "wellFormed st" and wk: "worker st = Some wk" and rdy: "isReady st"
  shows "settled (getEvaluation fen depth st) =
      settled st @ map (\<lambda>entry. (promise (snd entry), Rejected ''Evaluation cancelled by new request''))
        (filter (\<lambda>entry. \<not> isMapped st (fst entry)) (pendingEvaluations st))"
    and "pendingEvaluations (getEvaluation fen depth st) =
      filter (\<lambda>entry. isMapped st (fst entry)) (pendingEvaluations st) @
        [(Suc (evaluationId st), \<lparr> promise = promises st, evaluation = None \<rparr>)]"
    and "searchIdToEvalId (getEvaluation fen depth st) = searchIdToEvalId st"
proof -
  let ?c = "''Evaluation cancelled by new request''"
  let ?es = "filter (\<lambda>entry. \<not> isMapped st (fst entry)) (pendingEvaluations st)"
  let ?st1 = "st\<lparr> evaluationId := Suc (evaluationId st) \<rparr>"
  let ?st2 = "fold (\<lambda>entry. wrappedReject (fst entry) (promise (snd entry)) ?c) ?es ?st1"
  have d: "distinct (map fst (pendingEvaluations st))" using w by (rule wellFormed_distinct_keys)
  have xs: "previousUnmappedEvaluations st = map fst ?es"
    by (simp add: previousUnmappedEvaluations_def)
  have "fold rejectPrevious (map fst ?es) ?st1 = ?st2"
    by (rule fold_rejectPrevious_as_reject) (use d in \<open>simp_all add: distinct_map_filter\<close>)
  then have g: "getEvaluation fen depth st =
      ?st2\<lparr> pendingEvaluations :=
           mapSet (Suc (evaluationId st)) \<lparr> promise = promises st, evaluation = None \<rparr>
             (pendingEvaluations ?st2),
         timers := timers ?st2 @ [(promises st, Suc (evaluationId st), now st + 30000)],
         posted := posted st @
           [(wk, Some (promises st), Evaluate (''fen '' @ fen)
               (case depth of None \<Rightarrow> 15 | Some d \<Rightarrow> d))],
         promises := Suc (promises st) \<rparr>"
    by (simp add: getEvaluation_ready [OF wk rdy] xs)
  show "settled (getEvaluation fen depth st) =
      settled st @ map (\<lambda>entry. (promise (snd entry), Rejected ?c)) ?es"
    by (simp add: g fold_reject_settled)
  have "\<forall>x \<in> set ?es. fst x \<notin> snd ` set (searchIdToEvalId ?st1)"
    by (simp add: isMapped_def)
  from fold_reject_mapping [OF this]
  show "searchIdToEvalId (getEvaluation fen depth st) = searchIdToEvalId st"
    by (simp add: g)
  have p2: "pendingEvaluations ?st2 =
      filter (\<lambda>entry. isMapped st (fst entry)) (pendingEvaluations st)"
  proof -
    have "\<And>x. x \<in> set (pendingEvaluations st) \<Longrightarrow>
        (fst x \<notin> fst ` set ?es) = isMapped st (fst x)"
      by force
    then show ?thesis by (simp add: fold_reject_pending cong: filter_cong)
  qed
  from w have "\<forall>x \<in> set (pendingPairs st). fst x \<le> evaluationId st"
    by (simp add: wellFormed_def coherent_def)
  then have "Suc (evaluationId st) \<notin> fst ` set (pendingEvaluations st)"
    by (force simp: pendingPairs_def)
  then have "Suc (evaluationId st) \<notin> fst ` set (pendingEvaluations ?st2)"
    by (auto simp: p2)
  from mapSet_fresh [OF this]
  show "pendingEvaluations (getEvaluation fen depth st) =
      filter (\<lambda>entry. isMapped st (fst entry)) (pendingEvaluations st) @
        [(Suc (evaluationId st), \<lparr> promise = promises st, evaluation = None \<rparr>)]"
    by (simp add: g p2)
qed

lemma map_of_filter_key:
  "P k \<Longrightarrow> map_of (filter (\<lambda>entry. P (fst entry)) m) k = map_of m k"
  by (induction m) auto

lemma getEvaluation_supersedes:
  assumes w: "wellFormed st" and wk: "worker st = Some wk" and rdy: "isReady st"
    and pe: "map_of (pendingEvaluations st) e = Some pe"
  shows "outcome_of (getEvaluation fen depth st) (promise pe) =
           (if isMapped st e then None else Some (Rejected ''Evaluation cancelled by new request''))"
    and "isMapped st e \<Longrightarrow> map_of (pendingEvaluations (getEvaluation fen depth st)) e = Some pe"
    and "isMapped (getEvaluation fen depth st) e = isMapped st e"
proof -
  let ?c = "Rejected ''Evaluation cancelled by new request''"
  let ?es = "filter (\<lambda>entry. \<not> isMapped st (fst entry)) (pendingEvaluations st)"
  let ?news = "map (\<lambda>entry. (promise (snd entry), ?c)) ?es"
  note eff = getEvaluation_effect [OF w wk rdy, of fen depth]
  have un: "map_of (settled st) (promise pe) = None"
    using wellFormed_unsettled(1) [OF w pe] by (simp add: outcome_of_def)
  from pe have mem: "(e, pe) \<in> set (pendingEvaluations st)" by (rule map_of_SomeD)
  have d2: "distinct (map snd (pendingPairs st))" using w by (simp add: wellFormed_def coherent_def)
  show "outcome_of (getEvaluation fen depth st) (promise pe) =
           (if isMapped st e then None else Some ?c)"
  proof (cases "isMapped st e")
    case True
    have "promise pe \<notin> (\<lambda>entry. promise (snd entry)) ` set ?es"
    proof
      assume "promise pe \<in> (\<lambda>entry. promise (snd entry)) ` set ?es"
      then obtain y where y: "y \<in> set (pendingEvaluations st)" and ny: "\<not> isMapped st (fst y)"
        and py: "promise (snd y) = promise pe" by auto
      from y have "(fst y, promise pe) \<in> set (pendingPairs st)"
        by (force simp: pendingPairs_def py [symmetric])
      moreover from mem have "(e, promise pe) \<in> set (pendingPairs st)"
        by (force simp: pendingPairs_def)
      ultimately have "fst y = e" using d2 by (rule same_promise_same_id [rotated])
      with ny True show False by simp
    qed
    then have "map_of ?news (promise pe) = None" by (rule map_of_const_none)
    with un True show ?thesis by (simp add: outcome_of_def eff(1) map_add_def)
  next
    case False
    with mem have "(e, pe) \<in> set ?es" by simp
    then have "promise pe \<in> (\<lambda>entry. promise (snd entry)) ` set ?es" by force
    then have "map_of ?news (promise pe) = Some ?c" by (rule map_of_const)
    with un False show ?thesis by (simp add: outcome_of_def eff(1) map_add_def)
  qed
  show "isMapped (getEvaluation fen depth st) e = isMapped st e"
    by (simp add: isMapped_def eff(3))
  assume m: "isMapped st e"
  from w have "\<forall>x \<in> set (pendingPairs st). fst x \<le> evaluationId st"
    by (simp add: wellFormed_def coherent_def)
  with mem have "e \<noteq> Suc (evaluationId st)" by (force simp: pendingPairs_def)
  with m pe show "map_of (pendingEvaluations (getEvaluation fen depth st)) e = Some pe"
    by (simp add: eff(2) map_add_def map_of_filter_key [where P = "isMapped st"])
qed

section \<open>Calls in a row, and timers running out\<close>




section \<open>Messages when nothing is pending, and completion lines\<close>

lemma idle_onmessage:
  assumes "pendingEvaluations st = []" and "searchIdToEvalId st = []"
  shows "pendingEvaluations (onmessage m st) = []" and "searchIdToEvalId (onmessage m st) = []"
    and "settled (onmessage m st) = settled st"
proof -
  have f: "\<And>sid. findEvalId sid st = (None, st)"
    using assms by (simp add: findEvalId_def firstUnmapped_def)
  have "\<And>message searchId. handleStockfishMessage message searchId st = st"
    by (simp add: handleStockfishMessage_def handleInfo_def handleBestmove_def f
        split: option.split)
  then show "pendingEvaluations (onmessage m st) = []" and "searchIdToEvalId (onmessage m st) = []"
    and "settled (onmessage m st) = settled st"
    using assms by (cases m; simp)+
qed

lemma idle_messages:
  assumes "pendingEvaluations st = []" and "searchIdToEvalId st = []"
  shows "settled (run (map OnMessage msgs) st) = settled st"
  using assms
proof (induction msgs arbitrary: st)
  case Nil
  then show ?case by (simp add: run_def)
next
  case (Cons m msgs)
  from Cons.IH [OF idle_onmessage(1,2) [OF Cons.prems]] idle_onmessage(3) [OF Cons.prems]
  show ?case by (simp add: run_def)
qed

lemma wellFormed_idle:
  assumes "wellFormed st" and "worker st = None \<or> \<not> isReady st"
  shows "pendingEvaluations st = []" and "searchIdToEvalId st = []"
proof -
  from assms(1) have rd: "pendingPairs st \<noteq> [] \<longrightarrow> worker st \<noteq> None \<and> isReady st"
    and sub: "set (map snd (searchIdToEvalId st)) \<subseteq> set (map fst (pendingPairs st))"
    by (simp_all add: wellFormed_def coherent_def)
  from rd assms(2) have "pendingPairs st = []" by auto
  then show "pendingEvaluations st = []" by (simp add: pendingPairs_def)
  with sub show "searchIdToEvalId st = []" by (simp add: pendingPairs_def)
qed

lemma handleBestmove_silent:
  assumes "\<not> startsWith message ''bestmove''"
  shows "handleBestmove message searchId st = st"
  using assms by (simp add: handleBestmove_def)

lemma handleInfo_silent:
  assumes "\<not> startsWith message ''info''"
  shows "handleInfo message searchId st = st"
  using assms by (simp add: handleInfo_def)

lemma handleStockfishMessage_settled:
  obtains (quiet) "settled (handleStockfishMessage message searchId st) = settled st"
  | (completed) sid e pe where "searchId = Some sid" and "startsWith message ''bestmove''"
      and "fst (findEvalId sid st) = Some e"
      and "map_of (pendingEvaluations st) e = Some pe"
      and "settled (handleStockfishMessage message searchId st) =
             settled st @ [(promise pe, completion message pe)]"
proof (cases "startsWith message ''bestmove''")
  case False
  then have "settled (handleStockfishMessage message searchId st) = settled st"
    by (simp add: handleStockfishMessage_def handleBestmove_silent handleInfo_fields)
  then show ?thesis by (rule quiet)
next
  case True
  then have ni: "\<not> startsWith message ''info''" using info_not_bestmove by blast
  then have h: "handleStockfishMessage message searchId st = handleBestmove message searchId st"
    by (simp add: handleStockfishMessage_def handleInfo_silent)
  show ?thesis
  proof (cases rule: handleBestmove_cases [of message searchId st])
    case same
    with h have "settled (handleStockfishMessage message searchId st) = settled st" by simp
    then show ?thesis by (rule quiet)
  next
    case (nomatch sid)
    with h have "settled (handleStockfishMessage message searchId st) = settled st"
      by (simp add: findEvalId_fields)
    then show ?thesis by (rule quiet)
  next
    case (hit sid e pe)
    have "settled (handleStockfishMessage message searchId st) =
             settled st @ [(promise pe, completion message pe)]"
      by (simp add: h hit(5) wrappedSettle_fields findEvalId_fields)
    with hit(1-4) show ?thesis by (rule completed)
  qed
qed

lemma findEvalId_fst:
  "fst (findEvalId sid st) =
     (case map_of (searchIdToEvalId st) sid of Some e \<Rightarrow> Some e | None \<Rightarrow> firstUnmapped st)"
  by (cases rule: findEvalId_cases [of st sid]) simp_all

lemma handleBestmove_hit:
  assumes "startsWith message ''bestmove''" and "fst (findEvalId sid st) = Some e"
    and "map_of (pendingEvaluations st) e = Some pe"
  shows "settled (handleBestmove message (Some sid) st) =
           settled st @ [(promise pe, completion message pe)]"
    and "pendingEvaluations (handleBestmove message (Some sid) st) =
           mapDelete e (pendingEvaluations st)"
proof -
  obtain r st1 where f: "findEvalId sid st = (r, st1)" by (cases "findEvalId sid st")
  with assms(2) have r: "r = Some e" and st1: "st1 = snd (findEvalId sid st)" by simp_all
  have pend: "pendingEvaluations st1 = pendingEvaluations st" and sett: "settled st1 = settled st"
    by (simp_all add: st1 findEvalId_fields)
  show "settled (handleBestmove message (Some sid) st) =
           settled st @ [(promise pe, completion message pe)]"
    using assms(1,3) f r pend sett
    by (cases "finalEvaluation message (evaluation pe)")
      (simp_all add: handleBestmove_def completion_def wrappedResolve_def wrappedReject_def
        wrappedSettle_fields Let_def)
  show "pendingEvaluations (handleBestmove message (Some sid) st) =
           mapDelete e (pendingEvaluations st)"
    using assms(1,3) f r pend sett
    by (cases "finalEvaluation message (evaluation pe)")
      (simp_all add: handleBestmove_def completion_def wrappedResolve_def wrappedReject_def
        wrappedSettle_fields Let_def mapDelete_twice)
qed

section \<open>Only a completion line delivers a result\<close>

lemma onlyRejects_eq: "settled st' = settled st \<Longrightarrow> onlyRejects st st'"
  by (simp add: onlyRejects_def)

lemma onlyRejects_trans:
  assumes "onlyRejects a b" and "onlyRejects b c"
  shows "onlyRejects a c"
proof -
  from assms(1) obtain n1 where s1: "settled b = settled a @ n1"
    and r1: "\<forall>x \<in> set n1. \<exists>msg. snd x = Rejected msg" by (auto simp: onlyRejects_def)
  from assms(2) obtain n2 where s2: "settled c = settled b @ n2"
    and r2: "\<forall>x \<in> set n2. \<exists>msg. snd x = Rejected msg" by (auto simp: onlyRejects_def)
  from s1 s2 have "settled c = settled a @ (n1 @ n2)" by simp
  moreover from r1 r2 have "\<forall>x \<in> set (n1 @ n2). \<exists>msg. snd x = Rejected msg" by auto
  ultimately show ?thesis unfolding onlyRejects_def by blast
qed

lemma onlyRejects_wrappedReject: "onlyRejects st (wrappedReject e p msg st)"
  by (simp add: onlyRejects_def wrappedReject_def wrappedSettle_fields)

lemma onlyRejects_rejectPrevious: "onlyRejects st (rejectPrevious eid st)"
  using onlyRejects_wrappedReject [of st eid _ "''Evaluation cancelled by new request''"]
  by (simp add: rejectPrevious_eq onlyRejects_eq wrappedReject_def split: option.split)

lemma onlyRejects_fold_rejectPrevious: "onlyRejects st (fold rejectPrevious xs st)"
proof (induction xs arbitrary: st)
  case Nil
  then show ?case by (simp add: onlyRejects_eq)
next
  case (Cons x xs)
  from onlyRejects_rejectPrevious Cons.IH show ?case
    by (simp add: onlyRejects_trans [where b = "rejectPrevious x st"])
qed

lemma onlyRejects_getEvaluation: "onlyRejects st (getEvaluation fen depth st)"
proof (cases "worker st \<noteq> None \<and> isReady st")
  case False
  then show ?thesis
    by (cases "worker st") (simp_all add: getEvaluation_def Let_def onlyRejects_def)
next
  case True
  then obtain wk where wk: "worker st = Some wk" and rdy: "isReady st" by auto
  let ?st1 = "st\<lparr> evaluationId := Suc (evaluationId st) \<rparr>"
  let ?st2 = "fold rejectPrevious (previousUnmappedEvaluations ?st1) ?st1"
  have "onlyRejects st ?st1" by (simp add: onlyRejects_eq)
  moreover have "onlyRejects ?st1 ?st2" by (rule onlyRejects_fold_rejectPrevious)
  moreover have "onlyRejects ?st2 (getEvaluation fen depth st)"
    by (rule onlyRejects_eq) (simp add: getEvaluation_def wk rdy Let_def)
  ultimately show ?thesis by (blast intro: onlyRejects_trans)
qed

lemma onlyRejects_timeoutFires: "onlyRejects st (timeoutFires p st)"
  by (simp add: timeoutFires_def onlyRejects_eq onlyRejects_wrappedReject
      split: option.split prod.split)

lemma onlyRejects_rejectAll: "onlyRejects st (rejectAll msg st)"
  by (auto simp: onlyRejects_def rejectAll_settled)

lemma onlyRejects_stopEvaluation: "onlyRejects st (stopEvaluation st)"
proof (cases "worker st \<noteq> None \<and> isReady st")
  case False
  then show ?thesis by (cases "worker st") (simp_all add: stopEvaluation_def onlyRejects_eq)
next
  case True
  then obtain wk where wk: "worker st = Some wk" and rdy: "isReady st" by auto
  let ?st1 = "st\<lparr> posted := posted st @ [(wk, None, Stop)] \<rparr>"
  let ?st2 = "rejectAll ''Evaluation stopped'' ?st1"
  have "onlyRejects st ?st1" by (simp add: onlyRejects_eq)
  moreover have "onlyRejects ?st1 ?st2" by (rule onlyRejects_rejectAll)
  moreover have "onlyRejects ?st2 (stopEvaluation st)"
    by (rule onlyRejects_eq) (simp add: stopEvaluation_def wk rdy Let_def)
  ultimately show ?thesis by (blast intro: onlyRejects_trans)
qed

lemma onlyRejects_destroy: "onlyRejects st (destroy st)"
proof (cases "worker st")
  case None
  then show ?thesis by (simp add: destroy_def onlyRejects_eq)
next
  case (Some wk)
  let ?st1 = "stopEvaluation st"
  let ?st2 = "rejectAll ''Worker terminated'' ?st1"
  have "onlyRejects st ?st1" by (rule onlyRejects_stopEvaluation)
  moreover have "onlyRejects ?st1 ?st2" by (rule onlyRejects_rejectAll)
  moreover have "onlyRejects ?st2 (destroy st)"
    by (rule onlyRejects_eq) (simp add: destroy_def Some Let_def)
  ultimately show ?thesis by (blast intro: onlyRejects_trans)
qed

lemma onlyRejects_initialize: "onlyRejects st (initialize st)"
  by (rule onlyRejects_eq) (simp add: initialize_def)

lemma onlyRejects_no_result:
  assumes "onlyRejects st st'" and "outcome_of st p = None"
  shows "outcome_of st' p \<noteq> Some (Resolved r)"
proof
  assume a: "outcome_of st' p = Some (Resolved r)"
  from assms(1) obtain new where s: "settled st' = settled st @ new"
    and rj: "\<forall>x \<in> set new. \<exists>msg. snd x = Rejected msg" by (auto simp: onlyRejects_def)
  from a s assms(2) have "map_of new p = Some (Resolved r)"
    by (simp add: outcome_of_def map_add_def split: option.splits)
  then have "(p, Resolved r) \<in> set new" by (rule map_of_SomeD)
  with rj show False by force
qed

lemma step_result_needs_message:
  assumes "outcome_of st p = None" and "outcome_of (step ev st) p = Some (Resolved r)"
  obtains m where "ev = OnMessage m"
proof (cases ev)
  case (OnMessage m)
  then show ?thesis by (rule that)
next
  case Initialize
  with onlyRejects_no_result [OF onlyRejects_initialize assms(1)] assms(2) show ?thesis by simp
next
  case (GetEvaluation fen depth)
  with onlyRejects_no_result [OF onlyRejects_getEvaluation assms(1)] assms(2) show ?thesis by simp
next
  case StopEvaluation
  with onlyRejects_no_result [OF onlyRejects_stopEvaluation assms(1)] assms(2) show ?thesis by simp
next
  case Destroy
  with onlyRejects_no_result [OF onlyRejects_destroy assms(1)] assms(2) show ?thesis by simp
next
  case Restart
  have "onlyRejects st (restart st)"
    unfolding restart_def
    by (rule onlyRejects_trans [OF onlyRejects_destroy onlyRejects_initialize])
  from onlyRejects_no_result [OF this assms(1)] assms(2) Restart show ?thesis by simp
next
  case (TimeoutFires q)
  with onlyRejects_no_result [OF onlyRejects_timeoutFires assms(1)] assms(2) show ?thesis by simp
next
  case (Tick d)
  with assms show ?thesis by (simp add: outcome_of_def)
qed

lemma message_result:
  assumes before: "outcome_of st p = None"
    and after: "outcome_of (onmessage m st) p = Some (Resolved r)"
  shows "\<exists>message sid evalId pending.
      m = Message message (Some sid) \<and> startsWith message ''bestmove'' \<and>
      (map_of (searchIdToEvalId st) sid = Some evalId \<or>
       map_of (searchIdToEvalId st) sid = None \<and> firstUnmapped st = Some evalId) \<and>
      map_of (pendingEvaluations st) evalId = Some pending \<and> promise pending = p \<and>
      finalEvaluation message (evaluation pending) = Some r \<and>
      settled (onmessage m st) = settled st @ [(p, Resolved r)]"
proof (cases m)
  case Ready
  with before after show ?thesis by (simp add: outcome_of_def)
next
  case (WorkerError x)
  with before after show ?thesis by simp
next
  case Other
  with before after show ?thesis by simp
next
  case (Message message searchId)
  show ?thesis
  proof (cases rule: handleStockfishMessage_settled [of message searchId st])
    case quiet
    with before after Message show ?thesis by (simp add: outcome_of_def)
  next
    case (completed sid e pe)
    from before after Message completed(5)
    have eq: "promise pe = p" and c: "completion message pe = Resolved r"
      by (auto simp: outcome_of_def map_add_def split: if_splits)
    from c have fin: "finalEvaluation message (evaluation pe) = Some r"
      by (simp add: completion_def split: option.splits)
    from completed(3) have "map_of (searchIdToEvalId st) sid = Some e \<or>
       map_of (searchIdToEvalId st) sid = None \<and> firstUnmapped st = Some e"
      by (simp add: findEvalId_fst split: option.splits)
    with Message completed eq c fin show ?thesis by auto
  qed
qed

section \<open>The engine without search identifiers: settlements and timers\<close>

lemma wrappedSettle_lib_fields:
  "timers_lib (wrappedSettle_lib e p oc st) = filter (\<lambda>t. fst t \<noteq> p) (timers_lib st)"
  "pendingEvaluations_lib (wrappedSettle_lib e p oc st) = mapDelete e (pendingEvaluations_lib st)"
  "settled_lib (wrappedSettle_lib e p oc st) = settled_lib st @ [(p, oc)]"
  "now_lib (wrappedSettle_lib e p oc st) = now_lib st"
  "promises_lib (wrappedSettle_lib e p oc st) = promises_lib st"
  "worker_lib (wrappedSettle_lib e p oc st) = worker_lib st"
  "isReady_lib (wrappedSettle_lib e p oc st) = isReady_lib st"
  "currentEvaluation (wrappedSettle_lib e p oc st) = currentEvaluation st"
  by (simp_all add: wrappedSettle_lib_def)










lemma pendingFrom_settle:
  "pendingFrom n st \<Longrightarrow> pendingFrom n (wrappedSettle_lib e p oc st)"
  by (simp add: pendingFrom_def wrappedSettle_lib_fields mapDelete_def)





























section \<open>The engine without search identifiers: one result per table\<close>





section \<open>The engine without search identifiers: every promise is settled in the end\<close>


















section \<open>Workers and the messages they deliver\<close>





























section \<open>Sample states\<close>

lemma oneRequest_eq:
  "oneRequest = \<lparr> worker = Some 0, isReady = True,
      pendingEvaluations = [(1, \<lparr> promise = 0, evaluation = None \<rparr>)], evaluationId = 1,
      searchIdToEvalId = [], timers = [(0, 1, 30000)], now = 0, settled = [], promises = 1,
      workers = 1, posted = [(0, None, Init), (0, Some 0, Evaluate (''fen '' @ startFen) 15)] \<rparr>"
  by (simp add: oneRequest_def engine_defs)

lemma oneRequest_lib_eq:
  "oneRequest_lib = \<lparr> worker_lib = Some 0, isReady_lib = True,
      pendingEvaluations_lib = [(1, 0)], evaluationId_lib = 1, currentEvaluation = None,
      timers_lib = [(0, 1, 30000)], now_lib = 0, settled_lib = [], promises_lib = 1,
      workers_lib = 1,
      posted_lib = [(0, None, Init), (0, Some 0, Evaluate (''fen '' @ startFen) 15)] \<rparr>"
  by (simp add: oneRequest_lib_def lib_defs)

lemmas sample_defs = startFen_def fenAfterE4_def infoCp34_def infoMate3_def infoMateMinus2_def
  infoNoScore_def infoReply_def

lemmas eval_defs = engine_defs string_defs sample_defs

lemma twoRequests_eq:
  "run twoRequests newEngine = \<lparr> worker = Some 0, isReady = True,
      pendingEvaluations =
        [(1, \<lparr> promise = 0, evaluation = Some \<lparr> score = 34, bestMove = Some ''e2e4'' \<rparr> \<rparr>),
         (2, \<lparr> promise = 1, evaluation = None \<rparr>)],
      evaluationId = 2, searchIdToEvalId = [(1, 1)],
      timers = [(0, 1, 30000), (1, 2, 30000)], now = 0, settled = [], promises = 2,
      workers = 1,
      posted = [(0, None, Init), (0, Some 0, Evaluate (''fen '' @ startFen) 15),
                (0, Some 1, Evaluate (''fen '' @ fenAfterE4) 15)] \<rparr>"
  by (simp add: twoRequests_def engine_defs string_defs infoCp34_def)

section \<open>One request, one score line, one completion line\<close>

lemma single_roundtrip:
  assumes "pendingEvaluations st = [(evalId, pending)]"
    and "searchIdToEvalId st = [] \<or> searchIdToEvalId st = [(sid, evalId)]"
    and "startsWith info ''info''" and "scoreMatch info = Some g"
    and "startsWith best ''bestmove''"
  shows "settled (run [OnMessage (Message info (Some sid)), OnMessage (Message best (Some sid))] st) =
           settled st @ [(promise pending, Resolved (roundtripResult g info best))]"
proof -
  let ?st1 = "handleStockfishMessage info (Some sid) st"
  let ?pe = "pending\<lparr> evaluation := Some \<lparr> score = scoreOf g, bestMove = pvMatch info \<rparr> \<rparr>"
  have st1: "?st1 = st\<lparr> searchIdToEvalId := [(sid, evalId)], pendingEvaluations := [(evalId, ?pe)] \<rparr>"
    using assms(1-4) by (rule single_info)
  have p1: "pendingEvaluations ?st1 = [(evalId, ?pe)]"
    by (simp add: st1)
  have m1: "searchIdToEvalId ?st1 = [] \<or> searchIdToEvalId ?st1 = [(sid, evalId)]"
    by (simp add: st1)
  have "settled (handleStockfishMessage best (Some sid) ?st1) =
      settled st @ [(promise pending, Resolved (roundtripResult g info best))]"
    using single_bestmove [OF p1 m1 assms(5)]
    by (simp add: st1 finalEvaluation_def roundtripResult_def split: option.split)
  then show ?thesis by (simp add: run_def)
qed

lemma single_roundtrip_lib:
  assumes "pendingEvaluations_lib st = [(evalId, p)]"
    and "startsWith info ''info''" and "scoreMatch info = Some g"
    and "startsWith best ''bestmove''"
  shows "settled_lib (run_lib [OnMessage (Message info sid), OnMessage (Message best sid)] st) =
           settled_lib st @ [(p, Resolved (roundtripResult g info best))]"
proof -
  let ?st1 = "handleStockfishMessage_lib info st"
  let ?ev = "\<lparr> score = scoreOf g, bestMove = pvMatch info \<rparr>"
  have st1: "?st1 = st\<lparr> currentEvaluation := Some ?ev \<rparr>"
    using assms(2,3) by (rule single_info_lib)
  have p1: "pendingEvaluations_lib ?st1 = [(evalId, p)]"
    by (simp add: st1 assms(1))
  have c1: "currentEvaluation ?st1 = Some ?ev"
    by (simp add: st1)
  have "settled_lib (handleStockfishMessage_lib best ?st1) =
      settled_lib st @ [(p, Resolved (roundtripResult g info best))]"
    using single_bestmove_lib [OF p1 c1 assms(4)]
    by (simp add: st1 roundtripResult_def split: option.split)
  then show ?thesis by (simp add: run_lib_def)
qed

section \<open>The claims\<close>

text \<open>
  Claim C1, as amended. Whatever the event, a result reaches a caller only when a
  \<^verbatim>\<open>bestmove\<close> line tagged with a search identifier is handled, and then it goes to the
  request that identifier is mapped to or, when it is not mapped yet, to the oldest pending
  request that no search is mapped to; that request is resolved with what it has
  accumulated, and the line settles no other promise. Nothing in this ties the request to
  the search its own submission started.
\<close>

theorem C1_delivery_follows_mapping:
  assumes before: "outcome_of st p = None"
    and after: "outcome_of (step ev st) p = Some (Resolved r)"
  shows "\<exists>message sid evalId pending.
      ev = OnMessage (Message message (Some sid)) \<and> startsWith message ''bestmove'' \<and>
      (map_of (searchIdToEvalId st) sid = Some evalId \<or>
       map_of (searchIdToEvalId st) sid = None \<and> firstUnmapped st = Some evalId) \<and>
      map_of (pendingEvaluations st) evalId = Some pending \<and> promise pending = p \<and>
      finalEvaluation message (evaluation pending) = Some r \<and>
      settled (step ev st) = settled st @ [(p, Resolved r)]"
proof -
  from assms obtain m where ev: "ev = OnMessage m" by (rule step_result_needs_message)
  with after have "outcome_of (onmessage m st) p = Some (Resolved r)" by simp
  from message_result [OF before this] ev show ?thesis by auto
qed

text \<open>The amended statement at the single pending request of \<^const>\<open>oneRequest\<close>.\<close>

theorem C1_delivery_follows_mapping_witness:
  "outcome_of oneRequest 0 = None
   \<and> outcome_of (step (OnMessage (Message ''bestmove e2e4 ponder e7e5'' (Some 1))) oneRequest) 0
       = Some (Resolved \<lparr> score = 0, bestMove = Some ''e2e4'' \<rparr>)
   \<and> (\<exists>message sid evalId pending.
        OnMessage (Message ''bestmove e2e4 ponder e7e5'' (Some 1))
          = OnMessage (Message message (Some sid)) \<and>
        startsWith message ''bestmove'' \<and>
        (map_of (searchIdToEvalId oneRequest) sid = Some evalId \<or>
         map_of (searchIdToEvalId oneRequest) sid = None \<and> firstUnmapped oneRequest = Some evalId) \<and>
        map_of (pendingEvaluations oneRequest) evalId = Some pending \<and> promise pending = 0 \<and>
        finalEvaluation message (evaluation pending) = Some \<lparr> score = 0, bestMove = Some ''e2e4'' \<rparr> \<and>
        settled (step (OnMessage (Message ''bestmove e2e4 ponder e7e5'' (Some 1))) oneRequest)
          = settled oneRequest @ [(0, Resolved \<lparr> score = 0, bestMove = Some ''e2e4'' \<rparr>)])"
proof -
  have h1: "outcome_of oneRequest 0 = None" by (simp add: oneRequest_eq outcome_of_def)
  have h2: "outcome_of (step (OnMessage (Message ''bestmove e2e4 ponder e7e5'' (Some 1))) oneRequest) 0
       = Some (Resolved \<lparr> score = 0, bestMove = Some ''e2e4'' \<rparr>)"
    by (simp add: oneRequest_eq engine_defs string_defs)
  note c = C1_delivery_follows_mapping [OF h1 h2]
  show ?thesis by (intro conjI) (rule h1, rule h2, rule c)
qed

text \<open>
  The claim as stated fails. In \<^const>\<open>misattributedRun\<close> the worker has taken one
  \<^verbatim>\<open>evaluate\<close> message, that of promise 0 for the start position, and started search 1
  for it; the second request, promise 1 for the position after 1.e4, is submitted before the
  main thread handles the output of search 1. Promise 0 is rejected as superseded and the
  result of search 1 is delivered to promise 1.
\<close>

theorem C1_counterexample:
  "outcome_of (engine (sysRun misattributedRun newSystem)) 1
     = Some (Resolved \<lparr> score = 34, bestMove = Some ''e2e4'' \<rparr>)
   \<and> outcome_of (engine (sysRun misattributedRun newSystem)) 0
     = Some (Rejected ''Evaluation cancelled by new request'')
   \<and> posted (engine (sysRun misattributedRun newSystem))
     = [(0, None, Init), (0, Some 0, Evaluate (''fen '' @ startFen) 15),
        (0, Some 1, Evaluate (''fen '' @ fenAfterE4) 15)]
   \<and> map_option snd (map_of (liveWorkers (sysRun misattributedRun newSystem)) 0) = Some 2
   \<and> map_option currentSearchId (workerState (sysRun misattributedRun newSystem) 0) = Some 1
   \<and> map_option toStockfish (workerState (sysRun misattributedRun newSystem) 0)
     = Some [''uci'', ''setoption name Skill Level value 20'', ''setoption name MultiPV value 1'',
             ''stop'', ''position fen '' @ startFen, ''go depth 15'']"
  by (simp add: misattributedRun_def eval_defs worker_defs)




text \<open>
  Claim C3, as amended. A call of \<^verbatim>\<open>getEvaluation\<close> on a ready engine rejects, with
  \<^verbatim>\<open>Evaluation cancelled by new request\<close>, exactly the pending requests that no search
  identifier is mapped to; a pending request a search identifier is mapped to is left
  unsettled, pending and mapped. (A request gets mapped when a score-bearing \<^verbatim>\<open>info\<close>
  line or a \<^verbatim>\<open>bestmove\<close> line is handled, not by any other output line.)
\<close>

theorem C3_superseded_iff_unmapped:
  fixes evs :: "event list"
  defines "st \<equiv> run evs newEngine"
  assumes wk: "worker st \<noteq> None" and rdy: "isReady st"
    and pe: "map_of (pendingEvaluations st) evalId = Some pending"
  shows "outcome_of st (promise pending) = None
       \<and> outcome_of (getEvaluation fen depth st) (promise pending) =
           (if isMapped st evalId then None
            else Some (Rejected ''Evaluation cancelled by new request''))
       \<and> (isMapped st evalId \<longrightarrow>
            map_of (pendingEvaluations (getEvaluation fen depth st)) evalId = Some pending
          \<and> isMapped (getEvaluation fen depth st) evalId)"
proof -
  from wk obtain w where w: "worker st = Some w" by auto
  have wf: "wellFormed st" unfolding st_def by (rule wellFormed_reachable)
  note s = getEvaluation_supersedes [OF wf w rdy pe, of fen depth]
  from wellFormed_unsettled(1) [OF wf pe] s show ?thesis by simp
qed

text \<open>In \<^const>\<open>twoRequests\<close> the mapped request survives a new call, the unmapped one
  does not.\<close>

theorem C3_superseded_iff_unmapped_witness:
  "outcome_of (getEvaluation startFen None (run twoRequests newEngine)) 0 = None
   \<and> map_of (pendingEvaluations (getEvaluation startFen None (run twoRequests newEngine))) 1
       = Some \<lparr> promise = 0, evaluation = Some \<lparr> score = 34, bestMove = Some ''e2e4'' \<rparr> \<rparr>
   \<and> outcome_of (getEvaluation startFen None (run twoRequests newEngine)) 1
       = Some (Rejected ''Evaluation cancelled by new request'')"
proof -
  have h1: "worker (run twoRequests newEngine) \<noteq> None" by (simp add: twoRequests_eq)
  have h2: "isReady (run twoRequests newEngine)" by (simp add: twoRequests_eq)
  have m1: "map_of (pendingEvaluations (run twoRequests newEngine)) 1
      = Some \<lparr> promise = 0, evaluation = Some \<lparr> score = 34, bestMove = Some ''e2e4'' \<rparr> \<rparr>"
    by (simp add: twoRequests_eq)
  have m2: "map_of (pendingEvaluations (run twoRequests newEngine)) 2
      = Some \<lparr> promise = 1, evaluation = None \<rparr>"
    by (simp add: twoRequests_eq)
  have i1: "isMapped (run twoRequests newEngine) 1" by (simp add: twoRequests_eq isMapped_def)
  have i2: "\<not> isMapped (run twoRequests newEngine) 2" by (simp add: twoRequests_eq isMapped_def)
  from C3_superseded_iff_unmapped [OF h1 h2 m1, of startFen None]
    C3_superseded_iff_unmapped [OF h1 h2 m2, of startFen None] i1 i2
  show ?thesis by simp
qed

text \<open>
  The claim as stated fails. In \<^const>\<open>supersededRun\<close> the worker forwards an output line of
  search 1 that carries no score, the engine handles it (the channel is empty again), and
  the request of search 1 is still rejected as superseded by the next call.
\<close>

theorem C3_counterexample:
  "map_option toMain (workerState (sysRun (take 8 supersededRun) newSystem) 0)
     = Some [Message infoNoScore (Some 1)]
   \<and> map_option toMain (workerState (sysRun (take 9 supersededRun) newSystem) 0) = Some []
   \<and> map_option currentSearchId (workerState (sysRun supersededRun newSystem) 0) = Some 1
   \<and> outcome_of (engine (sysRun supersededRun newSystem)) 0
     = Some (Rejected ''Evaluation cancelled by new request'')"
  by (simp add: supersededRun_def eval_defs worker_defs)

text \<open>
  Claim C4, as amended. In every reachable state \<^verbatim>\<open>stopEvaluation\<close> rejects every pending
  request with \<^verbatim>\<open>Evaluation stopped\<close> and leaves no pending entry and no mapping; after
  it, messages from the worker settle nothing as long as no new request is submitted.
\<close>

theorem C4_stop_rejects_all:
  fixes evs :: "event list"
  defines "st \<equiv> run evs newEngine"
  shows "(\<forall>entry \<in> set (pendingEvaluations st).
            outcome_of (stopEvaluation st) (promise (snd entry)) = Some (Rejected ''Evaluation stopped''))
       \<and> pendingEvaluations (stopEvaluation st) = []
       \<and> searchIdToEvalId (stopEvaluation st) = []
       \<and> (\<forall>msgs. settled (run (map OnMessage msgs) (stopEvaluation st)) = settled (stopEvaluation st))"
proof -
  have wf: "wellFormed st" unfolding st_def by (rule wellFormed_reachable)
  have tables: "pendingEvaluations (stopEvaluation st) = [] \<and> searchIdToEvalId (stopEvaluation st) = []"
  proof (cases "worker st = None \<or> \<not> isReady st")
    case True
    from wellFormed_idle [OF wf True] True show ?thesis
      by (cases "worker st") (simp_all add: stopEvaluation_def)
  next
    case False
    then show ?thesis by (auto simp: stopEvaluation_def Let_def)
  qed
  have rej: "\<forall>entry \<in> set (pendingEvaluations st).
      outcome_of (stopEvaluation st) (promise (snd entry)) = Some (Rejected ''Evaluation stopped'')"
  proof
    fix entry assume mem: "entry \<in> set (pendingEvaluations st)"
    then have ne: "pendingEvaluations st \<noteq> []" by auto
    with wellFormed_idle(1) [OF wf] obtain w where w: "worker st = Some w" and rdy: "isReady st"
      by (cases "worker st") auto
    have d: "distinct (map fst (pendingEvaluations st))" using wf by (rule wellFormed_distinct_keys)
    from mem have "(fst entry, snd entry) \<in> set (pendingEvaluations st)" by simp
    with d have "map_of (pendingEvaluations st) (fst entry) = Some (snd entry)"
      by (rule map_of_is_SomeI)
    from wellFormed_unsettled(1) [OF wf this]
    have un: "map_of (settled st) (promise (snd entry)) = None" by (simp add: outcome_of_def)
    have s: "settled (stopEvaluation st) = settled st @
        map (\<lambda>entry. (promise (snd entry), Rejected ''Evaluation stopped'')) (pendingEvaluations st)"
      by (simp add: stopEvaluation_def w rdy Let_def rejectAll_settled)
    from mem have "promise (snd entry) \<in> (\<lambda>entry. promise (snd entry)) ` set (pendingEvaluations st)"
      by (rule imageI)
    from map_of_const [OF this] un
    show "outcome_of (stopEvaluation st) (promise (snd entry)) = Some (Rejected ''Evaluation stopped'')"
      by (simp add: outcome_of_def s map_add_def)
  qed
  from tables have "\<forall>msgs. settled (run (map OnMessage msgs) (stopEvaluation st))
      = settled (stopEvaluation st)"
    by (simp add: idle_messages)
  with rej tables show ?thesis by blast
qed

text \<open>Stopping \<^const>\<open>twoRequests\<close>, then a completion line of the stopped search.\<close>

theorem C4_stop_rejects_all_witness:
  "outcome_of (stopEvaluation (run twoRequests newEngine)) 0 = Some (Rejected ''Evaluation stopped'')
   \<and> outcome_of (stopEvaluation (run twoRequests newEngine)) 1 = Some (Rejected ''Evaluation stopped'')
   \<and> pendingEvaluations (stopEvaluation (run twoRequests newEngine)) = []
   \<and> searchIdToEvalId (stopEvaluation (run twoRequests newEngine)) = []
   \<and> settled (run (map OnMessage [Message ''bestmove e2e4 ponder e7e5'' (Some 1)])
        (stopEvaluation (run twoRequests newEngine)))
       = settled (stopEvaluation (run twoRequests newEngine))"
proof -
  note c = C4_stop_rejects_all [of twoRequests]
  have p: "pendingEvaluations (run twoRequests newEngine) =
        [(1, \<lparr> promise = 0, evaluation = Some \<lparr> score = 34, bestMove = Some ''e2e4'' \<rparr> \<rparr>),
         (2, \<lparr> promise = 1, evaluation = None \<rparr>)]"
    by (simp add: twoRequests_eq)
  from c [THEN conjunct1] p
  have r: "outcome_of (stopEvaluation (run twoRequests newEngine)) 0
        = Some (Rejected ''Evaluation stopped'')
      \<and> outcome_of (stopEvaluation (run twoRequests newEngine)) 1
        = Some (Rejected ''Evaluation stopped'')"
    by simp
  note t = c [THEN conjunct2, THEN conjunct1] c [THEN conjunct2, THEN conjunct2, THEN conjunct1]
  note q = c [THEN conjunct2, THEN conjunct2, THEN conjunct2, rule_format,
      of "[Message ''bestmove e2e4 ponder e7e5'' (Some 1)]"]
  from r t q show ?thesis by simp
qed

text \<open>
  The claim as stated fails. In \<^const>\<open>resolvedAfterStopRun\<close> the completion line of search 1
  is on its way to the main thread when the evaluation is stopped and a new request is
  submitted; the line, tagged with the search identifier from before the stop, resolves
  the new request.
\<close>

theorem C4_counterexample:
  "map_option toMain (workerState (sysRun (take 10 resolvedAfterStopRun) newSystem) 0)
     = Some [Message ''bestmove e2e4 ponder e7e5'' (Some 1)]
   \<and> outcome_of (engine (sysRun (take 10 resolvedAfterStopRun) newSystem)) 0
     = Some (Rejected ''Evaluation stopped'')
   \<and> outcome_of (engine (sysRun (take 10 resolvedAfterStopRun) newSystem)) 1 = None
   \<and> outcome_of (engine (sysRun resolvedAfterStopRun newSystem)) 1
     = Some (Resolved \<lparr> score = 0, bestMove = Some ''e2e4'' \<rparr>)"
  by (simp add: resolvedAfterStopRun_def eval_defs worker_defs)

text \<open>
  Claim C5. A call made on a ready engine arms a timer for 30000 ms after the submission.
  If the call is still unsettled in a later state at or after that deadline, its timer is
  still armed, and when it fires the call is rejected with \<^verbatim>\<open>Evaluation timeout\<close>, its
  pending entry is deleted, no search identifier is mapped to its \<^verbatim>\<open>evalId\<close> any more, and
  whatever happens later (stray output included) leaves the rejection in place.
\<close>

theorem C5_timeout:
  fixes evs evs' :: "event list" and fen :: string and depth :: "nat option"
  defines "st \<equiv> run evs newEngine"
  defines "st' \<equiv> run evs' (getEvaluation fen depth st)"
  assumes wk: "worker st \<noteq> None" and rdy: "isReady st"
    and unsettled: "outcome_of st' (promises st) = None"
    and due: "now st + 30000 \<le> now st'"
  shows "outcome_of (timeoutFires (promises st) st') (promises st)
           = Some (Rejected ''Evaluation timeout'')
       \<and> map_of (pendingEvaluations (timeoutFires (promises st) st')) (Suc (evaluationId st)) = None
       \<and> Suc (evaluationId st) \<notin> snd ` set (searchIdToEvalId (timeoutFires (promises st) st'))
       \<and> map_of (timers (timeoutFires (promises st) st')) (promises st) = None
       \<and> (\<forall>later. outcome_of (run later (timeoutFires (promises st) st')) (promises st)
             = Some (Rejected ''Evaluation timeout''))"
proof -
  let ?p = "promises st" and ?e = "Suc (evaluationId st)"
  let ?st1 = "getEvaluation fen depth st"
  from wk obtain w where w: "worker st = Some w" by auto
  have wf: "wellFormed st" unfolding st_def by (rule wellFormed_reachable)
  have wf1: "wellFormed ?st1" using wf by (rule wellFormed_getEvaluation)
  have wf': "wellFormed st'" unfolding st'_def using wf1 by (rule wellFormed_run)
  have t1: "map_of (timers ?st1) ?p = Some (?e, now st + 30000)"
    using wf w rdy by (rule getEvaluation_timer)
  have ev: "evolves ?st1 st'" unfolding st'_def by (rule evolves_run)
  have t': "map_of (timers st') ?p = Some (?e, now st + 30000)"
    using ev t1 unsettled by (rule evolves_timer)
  let ?fin = "timeoutFires ?p st'"
  have fin: "?fin = wrappedSettle ?e ?p (Rejected ''Evaluation timeout'') st'"
    using t' due by (simp add: timeoutFires_def wrappedReject_def)
  have o: "outcome_of ?fin ?p = Some (Rejected ''Evaluation timeout'')"
    using unsettled by (simp add: fin wrappedSettle_fields outcome_of_def map_add_def)
  have p: "map_of (pendingEvaluations ?fin) ?e = None"
    by (simp add: fin wrappedSettle_fields map_of_mapDelete)
  from wf' have "distinct (map snd (searchIdToEvalId st'))"
    by (simp add: wellFormed_def coherent_def)
  then have m: "?e \<notin> snd ` set (searchIdToEvalId ?fin)"
    by (simp add: fin wrappedSettle_fields deleteFirstMapping_gone)
  have t: "map_of (timers ?fin) ?p = None"
    by (simp add: fin wrappedSettle_fields map_of_filter_self)
  have l: "\<forall>later. outcome_of (run later ?fin) ?p = Some (Rejected ''Evaluation timeout'')"
    using evolves_outcome [OF evolves_run o] by blast
  from o p m t l show ?thesis by blast
qed

text \<open>A request mapped to search 1 that never completes; a completion line that comes
  after the timeout changes nothing.\<close>

theorem C5_timeout_witness:
  "outcome_of (timeoutFires 0 (run stalledRequest oneRequest)) 0 = Some (Rejected ''Evaluation timeout'')
   \<and> searchIdToEvalId (run stalledRequest oneRequest) = [(1, 1)]
   \<and> map_of (pendingEvaluations (timeoutFires 0 (run stalledRequest oneRequest))) 1 = None
   \<and> 1 \<notin> snd ` set (searchIdToEvalId (timeoutFires 0 (run stalledRequest oneRequest)))
   \<and> outcome_of (run [OnMessage (Message ''bestmove e2e4 ponder e7e5'' (Some 1))]
        (timeoutFires 0 (run stalledRequest oneRequest))) 0 = Some (Rejected ''Evaluation timeout'')"
proof -
  let ?st = "run [Initialize, OnMessage Ready] newEngine"
  have one: "getEvaluation startFen (Some 15) ?st = oneRequest"
    by (simp add: oneRequest_def run_def)
  have h1: "worker ?st \<noteq> None" by (simp add: engine_defs)
  have h2: "isReady ?st" by (simp add: engine_defs)
  have p: "promises ?st = 0" and e: "evaluationId ?st = 0" and n: "now ?st = 0"
    by (simp_all add: engine_defs)
  have s: "run stalledRequest oneRequest = \<lparr> worker = Some 0, isReady = True,
      pendingEvaluations =
        [(1, \<lparr> promise = 0, evaluation = Some \<lparr> score = 34, bestMove = Some ''e2e4'' \<rparr> \<rparr>)],
      evaluationId = 1, searchIdToEvalId = [(1, 1)], timers = [(0, 1, 30000)], now = 30000,
      settled = [], promises = 1, workers = 1,
      posted = [(0, None, Init), (0, Some 0, Evaluate (''fen '' @ startFen) 15)] \<rparr>"
    by (simp add: stalledRequest_def oneRequest_eq engine_defs string_defs infoCp34_def)
  have h3: "outcome_of (run stalledRequest (getEvaluation startFen (Some 15) ?st)) (promises ?st) = None"
    by (simp add: one p s outcome_of_def)
  have h4: "now ?st + 30000 \<le> now (run stalledRequest (getEvaluation startFen (Some 15) ?st))"
    by (simp add: one n s)
  note c = C5_timeout [OF h1 h2 h3 h4, unfolded one p e]
  from c have "outcome_of (run [OnMessage (Message ''bestmove e2e4 ponder e7e5'' (Some 1))]
        (timeoutFires 0 (run stalledRequest oneRequest))) 0 = Some (Rejected ''Evaluation timeout'')"
    by blast
  with c s show ?thesis by simp
qed




text \<open>
  Claim C7. With exactly one request pending, an \<^verbatim>\<open>info\<close> line whose score match is
  \<^verbatim>\<open>mate n\<close> followed by a \<^verbatim>\<open>bestmove\<close> line resolves the request with score \<open>10000\<close> when
  \<open>n\<close> is positive and \<open>-10000\<close> otherwise, whatever the magnitude of \<open>n\<close>, and with the
  move of the \<^verbatim>\<open>bestmove\<close> line; the witness runs \<^verbatim>\<open>mate 3\<close> with \<^verbatim>\<open>bestmove f7f8q\<close> and
  \<^verbatim>\<open>mate -2\<close>.
\<close>

theorem C7_mate_sentinel:
  assumes "pendingEvaluations st = [(evalId, pending)]"
    and "searchIdToEvalId st = [] \<or> searchIdToEvalId st = [(sid, evalId)]"
    and "outcome_of st (promise pending) = None"
    and "pendingEvaluations_lib st0 = [(evalId0, p0)]"
    and "outcome_of_lib st0 p0 = None"
    and "startsWith info ''info''" and "scoreMatch info = Some (''mate'', n)"
    and "startsWith best ''bestmove''" and "bestMoveMatch best = Some mv"
  shows "outcome_of (run [OnMessage (Message info (Some sid)), OnMessage (Message best (Some sid))] st)
           (promise pending) =
           Some (Resolved \<lparr> score = (if 0 < parseInt n then 10000 else - 10000), bestMove = Some mv \<rparr>)
       \<and> outcome_of_lib (run_lib [OnMessage (Message info sid0), OnMessage (Message best sid0)] st0)
           p0 =
           Some (Resolved \<lparr> score = (if 0 < parseInt n then 10000 else - 10000), bestMove = Some mv \<rparr>)"
proof -
  have r: "roundtripResult (''mate'', n) info best =
      \<lparr> score = (if 0 < parseInt n then 10000 else - 10000), bestMove = Some mv \<rparr>"
    by (simp add: roundtripResult_def assms(9) scoreOf_def)
  show ?thesis
    using single_roundtrip [OF assms(1,2,6,7,8)] single_roundtrip_lib [OF assms(4,6,7,8), of sid0]
      assms(3,5) r
    by (simp add: outcome_of_def outcome_of_lib_def map_add_def)
qed

theorem C7_mate_sentinel_witness:
  "(outcome_of (run [OnMessage (Message infoMate3 (Some 1)),
                    OnMessage (Message ''bestmove f7f8q'' (Some 1))] oneRequest) 0
     = Some (Resolved \<lparr> score = 10000, bestMove = Some ''f7f8q'' \<rparr>)
   \<and> outcome_of_lib (run_lib [OnMessage (Message infoMate3 (Some 1)),
                    OnMessage (Message ''bestmove f7f8q'' (Some 1))] oneRequest_lib) 0
     = Some (Resolved \<lparr> score = 10000, bestMove = Some ''f7f8q'' \<rparr>))
   \<and> (outcome_of (run [OnMessage (Message infoMateMinus2 (Some 1)),
                    OnMessage (Message ''bestmove g8h8'' (Some 1))] oneRequest) 0
     = Some (Resolved \<lparr> score = - 10000, bestMove = Some ''g8h8'' \<rparr>)
   \<and> outcome_of_lib (run_lib [OnMessage (Message infoMateMinus2 (Some 1)),
                    OnMessage (Message ''bestmove g8h8'' (Some 1))] oneRequest_lib) 0
     = Some (Resolved \<lparr> score = - 10000, bestMove = Some ''g8h8'' \<rparr>))"
proof -
  have h1: "pendingEvaluations oneRequest = [(1, \<lparr> promise = 0, evaluation = None \<rparr>)]"
    by (simp add: oneRequest_eq)
  have h2: "searchIdToEvalId oneRequest = [] \<or> searchIdToEvalId oneRequest = [(1, 1)]"
    by (simp add: oneRequest_eq)
  have h3: "outcome_of oneRequest (promise \<lparr> promise = 0, evaluation = None \<rparr>) = None"
    by (simp add: oneRequest_eq outcome_of_def)
  have h4: "pendingEvaluations_lib oneRequest_lib = [(1, 0)]"
    by (simp add: oneRequest_lib_eq)
  have h5: "outcome_of_lib oneRequest_lib 0 = None"
    by (simp add: oneRequest_lib_eq outcome_of_lib_def)
  have a6: "startsWith infoMate3 ''info''" by (simp add: infoMate3_def string_defs)
  have a7: "scoreMatch infoMate3 = Some (''mate'', ''3'')" by (simp add: infoMate3_def string_defs)
  have a8: "startsWith ''bestmove f7f8q'' ''bestmove''" by (simp add: string_defs)
  have a9: "bestMoveMatch ''bestmove f7f8q'' = Some ''f7f8q''" by (simp add: string_defs)
  have b6: "startsWith infoMateMinus2 ''info''" by (simp add: infoMateMinus2_def string_defs)
  have b7: "scoreMatch infoMateMinus2 = Some (''mate'', ''-2'')"
    by (simp add: infoMateMinus2_def string_defs)
  have b8: "startsWith ''bestmove g8h8'' ''bestmove''" by (simp add: string_defs)
  have b9: "bestMoveMatch ''bestmove g8h8'' = Some ''g8h8''" by (simp add: string_defs)
  have n3: "parseInt ''3'' = 3" and n2: "parseInt ''-2'' = - 2" by (simp_all add: string_defs)
  from C7_mate_sentinel [OF h1 h2 h3 h4 h5 a6 a7 a8 a9, of "Some 1"]
    C7_mate_sentinel [OF h1 h2 h3 h4 h5 b6 b7 b8 b9, of "Some 1"]
  show ?thesis by (simp add: n3 n2)
qed

text \<open>
  Claim C8, as amended. When a \<^verbatim>\<open>bestmove\<close> line completes a request that has accumulated
  no score, the engine with search identifiers resolves it with score 0 and the move of
  the line if the line carries a move, and rejects it with \<^verbatim>\<open>Evaluation incomplete\<close> if the
  line carries none; either way its pending entry is deleted. The engine of
  src/lib/chessEngine.ts ignores a \<^verbatim>\<open>bestmove\<close> line while it holds no evaluation.
\<close>

theorem C8_completion_without_score:
  assumes "startsWith best ''bestmove''"
    and "map_of (searchIdToEvalId st) sid = Some evalId \<or>
         map_of (searchIdToEvalId st) sid = None \<and> firstUnmapped st = Some evalId"
    and "map_of (pendingEvaluations st) evalId = Some pending"
    and "evaluation pending = None"
    and "outcome_of st (promise pending) = None"
    and "currentEvaluation st0 = None"
  shows "outcome_of (handleStockfishMessage best (Some sid) st) (promise pending) =
           (case bestMoveMatch best of
              Some mv \<Rightarrow> Some (Resolved \<lparr> score = 0, bestMove = Some mv \<rparr>)
            | None \<Rightarrow> Some (Rejected ''Evaluation incomplete''))
       \<and> map_of (pendingEvaluations (handleStockfishMessage best (Some sid) st)) evalId = None
       \<and> handleStockfishMessage_lib best st0 = st0"
proof -
  from assms(1) have ni: "\<not> startsWith best ''info''" using info_not_bestmove by blast
  have h: "handleStockfishMessage best (Some sid) st = handleBestmove best (Some sid) st"
    using ni by (simp add: handleStockfishMessage_def handleInfo_silent)
  from assms(2) have f: "fst (findEvalId sid st) = Some evalId"
    by (auto simp: findEvalId_fst)
  have lib: "handleStockfishMessage_lib best st0 = st0"
    using assms(1,6) ni
    by (simp add: handleStockfishMessage_lib_def handleInfo_lib_def handleBestmove_lib_def
        split: option.split list.split)
  note hit = handleBestmove_hit [OF assms(1) f assms(3)]
  show ?thesis
    using assms(4,5) lib
    by (simp add: h hit outcome_of_def map_add_def completion_def finalEvaluation_def
        map_of_mapDelete split: option.split)
qed

text \<open>Both kinds of completion line at the single request of \<^const>\<open>oneRequest\<close>.\<close>

theorem C8_completion_without_score_witness:
  "outcome_of (handleStockfishMessage ''bestmove e2e4 ponder e7e5'' (Some 1) oneRequest) 0
     = Some (Resolved \<lparr> score = 0, bestMove = Some ''e2e4'' \<rparr>)
   \<and> outcome_of (handleStockfishMessage ''bestmove (none)'' (Some 1) oneRequest) 0
     = Some (Rejected ''Evaluation incomplete'')
   \<and> handleStockfishMessage_lib ''bestmove e2e4 ponder e7e5'' oneRequest_lib = oneRequest_lib"
proof -
  have a1: "startsWith ''bestmove e2e4 ponder e7e5'' ''bestmove''" by (simp add: string_defs)
  have b1: "startsWith ''bestmove (none)'' ''bestmove''" by (simp add: string_defs)
  have h2: "map_of (searchIdToEvalId oneRequest) 1 = Some 1 \<or>
         map_of (searchIdToEvalId oneRequest) 1 = None \<and> firstUnmapped oneRequest = Some 1"
    by (simp add: oneRequest_eq firstUnmapped_def isMapped_def)
  have h3: "map_of (pendingEvaluations oneRequest) 1 = Some \<lparr> promise = 0, evaluation = None \<rparr>"
    by (simp add: oneRequest_eq)
  have h4: "evaluation \<lparr> promise = 0, evaluation = None \<rparr> = None" by simp
  have h5: "outcome_of oneRequest (promise \<lparr> promise = 0, evaluation = None \<rparr>) = None"
    by (simp add: oneRequest_eq outcome_of_def)
  have h6: "currentEvaluation oneRequest_lib = None" by (simp add: oneRequest_lib_eq)
  have m1: "bestMoveMatch ''bestmove e2e4 ponder e7e5'' = Some ''e2e4''" by (simp add: string_defs)
  have m2: "bestMoveMatch ''bestmove (none)'' = None" by (simp add: string_defs)
  from C8_completion_without_score [OF a1 h2 h3 h4 h5 h6]
    C8_completion_without_score [OF b1 h2 h3 h4 h5 h6]
  show ?thesis by (simp add: m1 m2)
qed

text \<open>
  The claim as stated fails: \<^verbatim>\<open>bestmove (none)\<close> with no score seen rejects the request,
  and the engine of src/lib/chessEngine.ts leaves the request pending even when the line
  carries a move.
\<close>

theorem C8_counterexample:
  "outcome_of (run [OnMessage (Message ''bestmove (none)'' (Some 1))] oneRequest) 0
     = Some (Rejected ''Evaluation incomplete'')
   \<and> outcome_of_lib (run_lib [OnMessage (Message ''bestmove e2e4 ponder e7e5'' (Some 1))]
        oneRequest_lib) 0 = None
   \<and> pendingEvaluations_lib (run_lib [OnMessage (Message ''bestmove e2e4 ponder e7e5'' (Some 1))]
        oneRequest_lib) = [(1, 0)]"
  by (simp add: oneRequest_eq oneRequest_lib_eq engine_defs lib_defs string_defs)







end
